theory Spec2Isabelle
  imports Complex_Main "HOL-Library.AList" "HOL-Library.Stream"
begin

section \<open>The data of server.js\<close>

text \<open>
  A card cell holds a number or the string 'FREE'; reading an array outside its bounds
  gives JavaScript's undefined, which is a value of its own here. A card is stored
  column-major: \<open>card[col][row]\<close>.
\<close>

datatype cell = Number int | FREE | Undefined

text \<open>The three values of \<open>gameState\<close>: 'waiting', 'playing', 'finished'.\<close>

datatype gstate = Waiting | Playing | Finished

text \<open>The handle \<open>setInterval\<close> returns, with its period in milliseconds.\<close>

datatype timer = Interval nat

text \<open>
  A JavaScript \<open>Set\<close> of numbers keeps insertion order and no duplicates: it is the list of
  its elements in insertion order. \<open>add\<close> appends an element that is not yet there.
\<close>

definition setAdd :: "int \<Rightarrow> int list \<Rightarrow> int list" where
  "setAdd x xs = (if x \<in> set xs then xs else xs @ [x])"

definition setHas :: "int list \<Rightarrow> int \<Rightarrow> bool" where
  "setHas xs x = (x \<in> set xs)"

record player =
  id_p :: string
  name_p :: string
  card_p :: "cell list list"
  markedCells :: "int list"

text \<open>
  The fields of class \<open>BingoGame\<close>. \<open>players\<close> is a JavaScript \<open>Map\<close>: an association list in
  insertion order, where \<open>set\<close> on a present key replaces the entry in place
  (\<open>AList.update\<close>) and \<open>delete\<close> removes it (\<open>AList.delete\<close>). \<open>null\<close> is \<open>None\<close>.
\<close>

record BingoGame =
  roomId :: string
  players :: "(string \<times> player) list"
  calledNumbers :: "int list"
  currentNumber :: "int option"
  gameState :: gstate
  winner :: "string option"
  callInterval :: "timer option"

text \<open>The object \<open>getState()\<close> returns.\<close>

record snapshot =
  st_roomId :: string
  st_playerCount :: nat
  st_calledNumbers :: "int list"
  st_currentNumber :: "int option"
  st_gameState :: gstate
  st_winner :: "string option"

section \<open>Randomness and array access\<close>

text \<open>
  \<open>Math.random()\<close> returns a number of the interval [0, 1). A sample is a real of that
  interval; \<open>Math.floor(Math.random() * n)\<close> is the floor of the product. (The code
  multiplies doubles; for a length \<open>n\<close> from 1 to 75 the rounded product stays below
  \<open>n\<close>, so every index the code computes is the index of some sample.) The source of
  randomness is a stream of samples, consumed from its head.
\<close>

typedef sample = "{u::real. 0 \<le> u \<and> u < 1}"
  by (rule exI [of _ 0]) simp

definition randomIndex :: "sample \<Rightarrow> nat \<Rightarrow> nat" where
  "randomIndex u n = nat \<lfloor>Rep_sample u * real n\<rfloor>"

definition sampleZero :: sample where
  "sampleZero = Abs_sample 0"

text \<open>\<open>xs[i]\<close> for a number \<open>i\<close>: undefined (\<open>None\<close>) outside the array.\<close>

definition arrayAt :: "'a list \<Rightarrow> int \<Rightarrow> 'a option" where
  "arrayAt xs i = (if 0 \<le> i \<and> i < int (length xs) then Some (xs ! nat i) else None)"

text \<open>
  \<open>available.splice(i, 1)[0]\<close>: removes the element at \<open>i\<close> and returns it; past the end
  nothing is removed and the result is undefined.
\<close>

definition splice1 :: "int list \<Rightarrow> nat \<Rightarrow> cell \<times> int list" where
  "splice1 available i =
     (if i < length available
      then (Number (available ! i), take i available @ drop (Suc i) available)
      else (Undefined, available))"

section \<open>Class BingoGame\<close>

definition newBingoGame :: "string \<Rightarrow> BingoGame" where
  "newBingoGame rid =
     \<lparr>roomId = rid, players = [], calledNumbers = [], currentNumber = None,
      gameState = Waiting, winner = None, callInterval = None\<rparr>"

subsection \<open>generateBingoCard\<close>

definition ranges :: "(int \<times> int) list" where
  "ranges = [(1, 15), (16, 30), (31, 45), (46, 60), (61, 75)]"

text \<open>The inner loop over the rows of one column; \<open>numbers.push\<close> builds the column in order.\<close>

fun fillRows :: "int \<Rightarrow> int list \<Rightarrow> int list \<Rightarrow> sample stream \<Rightarrow> cell list \<times> sample stream" where
  "fillRows col [] available us = ([], us)"
| "fillRows col (row # rows) available us =
     (if col = 2 \<and> row = 2 then
        (case fillRows col rows available us of
           (numbers, us') \<Rightarrow> (FREE # numbers, us'))
      else
        (case splice1 available (randomIndex (shd us) (length available)) of
           (picked, available') \<Rightarrow>
             (case fillRows col rows available' (stl us) of
                (numbers, us') \<Rightarrow> (picked # numbers, us'))))"

text \<open>
  One iteration of the outer loop: \<open>col\<close> runs over 0..4, so \<open>ranges[col]\<close> is one of the
  five pairs.
\<close>

definition genColumn :: "int \<Rightarrow> sample stream \<Rightarrow> cell list \<times> sample stream" where
  "genColumn col us =
     (case ranges ! nat col of
        (mn, mx) \<Rightarrow> fillRows col [0, 1, 2, 3, 4] [mn..mx] us)"

fun genColumns :: "int list \<Rightarrow> sample stream \<Rightarrow> cell list list \<times> sample stream" where
  "genColumns [] us = ([], us)"
| "genColumns (col # cols) us =
     (case genColumn col us of
        (numbers, us') \<Rightarrow>
          (case genColumns cols us' of
             (bcard, us'') \<Rightarrow> (numbers # bcard, us'')))"

definition generateBingoCard :: "sample stream \<Rightarrow> cell list list \<times> sample stream" where
  "generateBingoCard us = genColumns [0, 1, 2, 3, 4] us"

subsection \<open>addPlayer, removePlayer, stopGame\<close>

definition stopGame :: "BingoGame \<Rightarrow> BingoGame" where
  "stopGame game =
     (if callInterval game \<noteq> None then game\<lparr>callInterval := None\<rparr> else game)"

definition addPlayer ::
  "BingoGame \<Rightarrow> string \<Rightarrow> string \<Rightarrow> sample stream \<Rightarrow> BingoGame \<times> sample stream" where
  "addPlayer game socketId playerName us =
     (case generateBingoCard us of
        (bcard, us') \<Rightarrow>
          (game\<lparr>players :=
             AList.update socketId
               \<lparr>id_p = socketId, name_p = playerName, card_p = bcard, markedCells = []\<rparr>
               (players game)\<rparr>,
           us'))"

definition removePlayer :: "BingoGame \<Rightarrow> string \<Rightarrow> BingoGame" where
  "removePlayer game socketId =
     (let game' = game\<lparr>players := AList.delete socketId (players game)\<rparr>
      in if length (players game') = 0 then stopGame game' else game')"

subsection \<open>callNumber, startGame\<close>

text \<open>
  \<open>callNumber\<close> returns the number drawn, or \<open>null\<close> when all of 1..75 are called. The
  array of available numbers is not empty where it is indexed, and the index is below
  its length (lemma \<open>randomIndex_less\<close>).
\<close>

definition availableNumbers :: "BingoGame \<Rightarrow> int list" where
  "availableNumbers game = filter (\<lambda>num. num \<notin> set (calledNumbers game)) [1..75]"

definition callNumber :: "BingoGame \<Rightarrow> sample \<Rightarrow> int option \<times> BingoGame" where
  "callNumber game u =
     (if length (availableNumbers game) = 0 then (None, stopGame game)
      else
        (let number = availableNumbers game ! randomIndex u (length (availableNumbers game))
         in (Some number,
             game\<lparr>calledNumbers := calledNumbers game @ [number],
                  currentNumber := Some number\<rparr>)))"

definition startGame :: "BingoGame \<Rightarrow> sample \<Rightarrow> BingoGame" where
  "startGame game u =
     (if gameState game \<noteq> Waiting then game
      else snd (callNumber
                  (game\<lparr>gameState := Playing, calledNumbers := [], winner := None,
                        callInterval := Some (Interval 5000)\<rparr>) u))"

subsection \<open>checkWin\<close>

text \<open>The count of marked cells among the cells of one line.\<close>

definition countMarked :: "int list \<Rightarrow> int list \<Rightarrow> nat" where
  "countMarked marked cells = length (filter (setHas marked) cells)"

definition rowCells :: "int \<Rightarrow> int list" where
  "rowCells row = map (\<lambda>col. row * 5 + col) [0, 1, 2, 3, 4]"

definition colCells :: "int \<Rightarrow> int list" where
  "colCells col = map (\<lambda>row. row * 5 + col) [0, 1, 2, 3, 4]"

definition diag1Cells :: "int list" where
  "diag1Cells = map (\<lambda>i. i * 5 + i) [0, 1, 2, 3, 4]"

definition diag2Cells :: "int list" where
  "diag2Cells = map (\<lambda>i. i * 5 + (4 - i)) [0, 1, 2, 3, 4]"

text \<open>The four checks of \<open>checkWin\<close>, in its order, on the marked set after the FREE index is added.\<close>

definition checkLines :: "int list \<Rightarrow> bool" where
  "checkLines marked =
     (if list_ex (\<lambda>row. countMarked marked (rowCells row) = 5) [0, 1, 2, 3, 4] then True
      else if list_ex (\<lambda>col. countMarked marked (colCells col) = 5) [0, 1, 2, 3, 4] then True
      else if countMarked marked diag1Cells = 5 then True
      else if countMarked marked diag2Cells = 5 then True
      else False)"

definition freeIndex :: int where
  "freeIndex = 2 * 5 + 2"

text \<open>
  \<open>checkWin\<close> adds the FREE index to the player's own \<open>markedCells\<close> set (the object in the
  \<open>players\<close> map), then checks the lines: it returns the answer and the game with that
  player updated.
\<close>

definition checkWin :: "BingoGame \<Rightarrow> string \<Rightarrow> bool \<times> BingoGame" where
  "checkWin game socketId =
     (case map_of (players game) socketId of
        None \<Rightarrow> (False, game)
      | Some player \<Rightarrow>
          (let marked = setAdd freeIndex (markedCells player)
           in (checkLines marked,
               game\<lparr>players :=
                 AList.update socketId (player\<lparr>markedCells := marked\<rparr>) (players game)\<rparr>)))"

definition getState :: "BingoGame \<Rightarrow> snapshot" where
  "getState game =
     \<lparr>st_roomId = roomId game, st_playerCount = length (players game),
      st_calledNumbers = calledNumbers game, st_currentNumber = currentNumber game,
      st_gameState = gameState game, st_winner = winner game\<rparr>"

section \<open>The connection handlers\<close>

text \<open>The payloads of the events the server emits.\<close>

datatype message =
    GameJoined "cell list list" string snapshot
  | PlayerJoined string nat
  | GameStarted snapshot
  | CellMarked int int
  | GameWon string "cell list list" "int list"
  | InvalidBingo string
  | GameReset "cell list list" snapshot
  | PlayerLeft string nat

text \<open>
  \<open>socket.emit\<close> reaches the one socket named; \<open>io.to(target).emit\<close> reaches the group named
  (a room id, or a socket id).
\<close>

datatype emit = SocketEmit string message | IoTo string message

text \<open>An uncaught exception of a handler: reading a property of undefined.\<close>

datatype error = TypeError

text \<open>
  The process state: the \<open>games\<close> map, and the \<open>roomId\<close> property each socket carries once it
  has joined (\<open>None\<close>: undefined).
\<close>

record server =
  games :: "string \<rightharpoonup> BingoGame"
  socketRoomId :: "string \<rightharpoonup> string"

definition initialServer :: server where
  "initialServer = \<lparr>games = Map.empty, socketRoomId = Map.empty\<rparr>"

text \<open>The decimal digits of a number, for the template string \<open>Player N\<close>.\<close>

function showNat :: "nat \<Rightarrow> string" where
  "showNat n =
     (if n < 10 then [''0123456789'' ! n]
      else showNat (n div 10) @ [''0123456789'' ! (n mod 10)])"
  by pat_completeness auto
termination
  by (relation "measure id") auto

declare showNat.simps [simp del]

text \<open>\<open>calledNumbers.includes(cellValue)\<close>: the array holds numbers only.\<close>

definition arrayIncludes :: "int list \<Rightarrow> cell \<Rightarrow> bool" where
  "arrayIncludes xs v = (case v of Number n \<Rightarrow> n \<in> set xs | FREE \<Rightarrow> False | Undefined \<Rightarrow> False)"

text \<open>
  The first lines of every handler but joinGame: the socket's \<open>roomId\<close> must be truthy (set,
  and not the empty string) and name a game of the map.
\<close>

definition resolveGame :: "server \<Rightarrow> string \<Rightarrow> (string \<times> BingoGame) option" where
  "resolveGame s socketId =
     (case socketRoomId s socketId of
        None \<Rightarrow> None
      | Some rid \<Rightarrow>
          (if rid = [] then None
           else (case games s rid of
                   None \<Rightarrow> None
                 | Some game \<Rightarrow> Some (rid, game))))"

text \<open>
  joinGame. The default name is computed from the size of the map before the player is
  added. An empty \<open>playerName\<close> is falsy.
\<close>

definition onJoinGame ::
  "server \<Rightarrow> string \<Rightarrow> string \<Rightarrow> string \<Rightarrow> sample stream \<Rightarrow> error + (server \<times> emit list)" where
  "onJoinGame s socketId rid playerName us =
     (let game0 = (case games s rid of None \<Rightarrow> newBingoGame rid | Some g \<Rightarrow> g);
          shown = (if playerName \<noteq> [] then playerName
                   else ''Player '' @ showNat (length (players game0) + 1));
          game = fst (addPlayer game0 socketId shown us)
      in case map_of (players game) socketId of
           None \<Rightarrow> Inl TypeError
         | Some player \<Rightarrow>
             Inr (s\<lparr>games := (games s)(rid \<mapsto> game),
                     socketRoomId := (socketRoomId s)(socketId \<mapsto> rid)\<rparr>,
                  [SocketEmit socketId
                     (GameJoined (card_p player) (name_p player) (getState game)),
                   IoTo rid (PlayerJoined (name_p player) (length (players game)))]))"

definition onStartGame ::
  "server \<Rightarrow> string \<Rightarrow> sample stream \<Rightarrow> error + (server \<times> emit list)" where
  "onStartGame s socketId us =
     (case resolveGame s socketId of
        None \<Rightarrow> Inr (s, [])
      | Some (rid, game) \<Rightarrow>
          (let game' = startGame game (shd us)
           in Inr (s\<lparr>games := (games s)(rid \<mapsto> game')\<rparr>,
                   [IoTo rid (GameStarted (getState game'))])))"

text \<open>
  markCell. \<open>player.card[col]\<close> is undefined when \<open>col\<close> is outside the card, and reading
  \<open>[row]\<close> of undefined throws; a \<open>row\<close> outside the column reads undefined, which is
  neither 'FREE' nor a called number.
\<close>

definition onMarkCell ::
  "server \<Rightarrow> string \<Rightarrow> int \<Rightarrow> int \<Rightarrow> error + (server \<times> emit list)" where
  "onMarkCell s socketId row col =
     (case resolveGame s socketId of
        None \<Rightarrow> Inr (s, [])
      | Some (rid, game) \<Rightarrow>
          (case map_of (players game) socketId of
             None \<Rightarrow> Inr (s, [])
           | Some player \<Rightarrow>
               (let index = row * 5 + col
                in case arrayAt (card_p player) col of
                     None \<Rightarrow> Inl TypeError
                   | Some column \<Rightarrow>
                       (let cellValue =
                              (case arrayAt column row of None \<Rightarrow> Undefined | Some v \<Rightarrow> v)
                        in if cellValue = FREE \<or> arrayIncludes (calledNumbers game) cellValue
                           then Inr (s\<lparr>games := (games s)(rid \<mapsto>
                                        game\<lparr>players :=
                                          AList.update socketId
                                            (player\<lparr>markedCells :=
                                               setAdd index (markedCells player)\<rparr>)
                                            (players game)\<rparr>)\<rparr>,
                                     [SocketEmit socketId (CellMarked row col)])
                           else Inr (s, [])))))"

text \<open>
  claimBingo. \<open>player\<close> is the object of the map, so after \<open>checkWin\<close> its \<open>markedCells\<close> is the
  set \<open>checkWin\<close> has extended: \<open>player1\<close> is that object read again.
\<close>

definition onClaimBingo :: "server \<Rightarrow> string \<Rightarrow> error + (server \<times> emit list)" where
  "onClaimBingo s socketId =
     (case resolveGame s socketId of
        None \<Rightarrow> Inr (s, [])
      | Some (rid, game) \<Rightarrow>
          (if gameState game \<noteq> Playing then Inr (s, [])
           else
             (case map_of (players game) socketId of
                None \<Rightarrow> Inr (s, [])
              | Some player \<Rightarrow>
                  (case checkWin game socketId of
                     (isWinner, game1) \<Rightarrow>
                       (let player1 = (case map_of (players game1) socketId of
                                         None \<Rightarrow> player
                                       | Some p \<Rightarrow> p)
                        in if isWinner then
                             (let game2 = stopGame (game1\<lparr>gameState := Finished,
                                                           winner := Some (name_p player1)\<rparr>)
                              in Inr (s\<lparr>games := (games s)(rid \<mapsto> game2)\<rparr>,
                                      [IoTo rid (GameWon (name_p player1) (card_p player1)
                                                   (markedCells player1))]))
                           else
                             Inr (s\<lparr>games := (games s)(rid \<mapsto> game1)\<rparr>,
                                  [SocketEmit socketId
                                     (InvalidBingo ''Not a valid Bingo!'')]))))))"

text \<open>The first \<open>players.forEach\<close> of newGame: a new card and an empty set for every player.\<close>

fun regenerate ::
  "(string \<times> player) list \<Rightarrow> sample stream \<Rightarrow> (string \<times> player) list \<times> sample stream" where
  "regenerate [] us = ([], us)"
| "regenerate ((socketId, player) # rest) us =
     (case generateBingoCard us of
        (bcard, us') \<Rightarrow>
          (case regenerate rest us' of
             (rest', us'') \<Rightarrow>
               ((socketId, player\<lparr>card_p := bcard, markedCells := []\<rparr>) # rest', us'')))"

definition onNewGame ::
  "server \<Rightarrow> string \<Rightarrow> sample stream \<Rightarrow> error + (server \<times> emit list)" where
  "onNewGame s socketId us =
     (case resolveGame s socketId of
        None \<Rightarrow> Inr (s, [])
      | Some (rid, game) \<Rightarrow>
          (let game1 = (stopGame game)\<lparr>calledNumbers := [], currentNumber := None,
                                        gameState := Waiting, winner := None\<rparr>;
               game2 = game1\<lparr>players := fst (regenerate (players game1) us)\<rparr>
           in Inr (s\<lparr>games := (games s)(rid \<mapsto> game2)\<rparr>,
                   map (\<lambda>(sid, player). IoTo sid (GameReset (card_p player) (getState game2)))
                     (players game2))))"

text \<open>
  disconnect. The socket is gone afterwards: its entry leaves \<open>socketRoomId\<close>.
\<close>

definition onDisconnect :: "server \<Rightarrow> string \<Rightarrow> error + (server \<times> emit list)" where
  "onDisconnect s socketId =
     (case resolveGame s socketId of
        None \<Rightarrow> Inr (s\<lparr>socketRoomId := (socketRoomId s)(socketId := None)\<rparr>, [])
      | Some (rid, game) \<Rightarrow>
          (let playerName = (case map_of (players game) socketId of
                               None \<Rightarrow> ''Unknown''
                             | Some player \<Rightarrow> name_p player);
               game' = removePlayer game socketId
           in if length (players game') = 0
              then Inr (s\<lparr>games := (games s)(rid := None),
                          socketRoomId := (socketRoomId s)(socketId := None)\<rparr>, [])
              else Inr (s\<lparr>games := (games s)(rid \<mapsto> game'),
                          socketRoomId := (socketRoomId s)(socketId := None)\<rparr>,
                        [IoTo rid (PlayerLeft playerName (length (players game')))])))"

text \<open>
  The callback of the interval \<open>startGame\<close> sets: it runs \<open>callNumber\<close> on its game, and only
  while the interval has not been cleared.
\<close>

definition onTick :: "server \<Rightarrow> string \<Rightarrow> sample \<Rightarrow> error + (server \<times> emit list)" where
  "onTick s rid u =
     (case games s rid of
        None \<Rightarrow> Inr (s, [])
      | Some game \<Rightarrow>
          (if callInterval game = None then Inr (s, [])
           else Inr (s\<lparr>games := (games s)(rid \<mapsto> snd (callNumber game u))\<rparr>, [])))"

text \<open>
  Everything that can happen to the process: an inbound event of a socket, or the
  interval of a game firing. (The 100 ms loop at the end of server.js only emits
  \<open>numberCalled\<close> for the games that are playing; it reads the state and changes nothing.)
\<close>

datatype event =
    JoinGame string string string
  | StartGame string
  | MarkCell string int int
  | ClaimBingo string
  | NewGame string
  | Disconnect string
  | Tick string

fun step :: "server \<Rightarrow> sample stream \<Rightarrow> event \<Rightarrow> error + (server \<times> emit list)" where
  "step s us (JoinGame socketId rid playerName) = onJoinGame s socketId rid playerName us"
| "step s us (StartGame socketId) = onStartGame s socketId us"
| "step s us (MarkCell socketId row col) = onMarkCell s socketId row col"
| "step s us (ClaimBingo socketId) = onClaimBingo s socketId"
| "step s us (NewGame socketId) = onNewGame s socketId us"
| "step s us (Disconnect socketId) = onDisconnect s socketId"
| "step s us (Tick rid) = onTick s rid (shd us)"

text \<open>The states the process can be in: those a run of handlers reaches from the empty map.\<close>

inductive reachable :: "server \<Rightarrow> bool" where
  reachable_init: "reachable initialServer"
| reachable_step: "reachable s \<Longrightarrow> step s us ev = Inr (s', out) \<Longrightarrow> reachable s'"

section \<open>Notions of the specification, and example states\<close>

text \<open>
  The twelve lines of a card as the specification words them, by the linear index
  \<open>row * 5 + col\<close>: five rows, five columns, the main diagonal (row = col) and the
  anti-diagonal (row + col = 4).
\<close>

definition bingoLines :: "int list list" where
  "bingoLines =
     map (\<lambda>row. map (\<lambda>col. row * 5 + col) [0, 1, 2, 3, 4]) [0, 1, 2, 3, 4] @
     map (\<lambda>col. map (\<lambda>row. row * 5 + col) [0, 1, 2, 3, 4]) [0, 1, 2, 3, 4] @
     [map (\<lambda>i. i * 5 + i) [0, 1, 2, 3, 4], map (\<lambda>i. i * 5 + (4 - i)) [0, 1, 2, 3, 4]]"

text \<open>
  A card \<open>generateBingoCard\<close> produces (with every sample 0), one player \<open>s1\<close> holding it,
  and a game in progress with that player.
\<close>

definition demoCard :: "cell list list" where
  "demoCard =
     [[Number 1, Number 2, Number 3, Number 4, Number 5],
      [Number 16, Number 17, Number 18, Number 19, Number 20],
      [Number 31, Number 32, FREE, Number 33, Number 34],
      [Number 46, Number 47, Number 48, Number 49, Number 50],
      [Number 61, Number 62, Number 63, Number 64, Number 65]]"

definition demoPlayer :: "int list \<Rightarrow> player" where
  "demoPlayer marked =
     \<lparr>id_p = ''s1'', name_p = ''Ann'', card_p = demoCard, markedCells = marked\<rparr>"

definition demoGame :: "int list \<Rightarrow> int list \<Rightarrow> BingoGame" where
  "demoGame called marked =
     \<lparr>roomId = ''r1'', players = [(''s1'', demoPlayer marked)], calledNumbers = called,
      currentNumber = (if called = [] then None else Some (last called)),
      gameState = Playing, winner = None, callInterval = Some (Interval 5000)\<rparr>"

text \<open>The marked set of a player of a room, as the process holds it.\<close>

definition markedOf :: "server \<Rightarrow> string \<Rightarrow> string \<Rightarrow> int list option" where
  "markedOf s rid socketId =
     (case games s rid of
        None \<Rightarrow> None
      | Some game \<Rightarrow> map_option markedCells (map_of (players game) socketId))"

text \<open>The process with the example game as room \<open>r1\<close>, joined by socket \<open>s1\<close>.\<close>

definition demoServer :: "int list \<Rightarrow> int list \<Rightarrow> server" where
  "demoServer called marked =
     \<lparr>games = [''r1'' \<mapsto> demoGame called marked], socketRoomId = [''s1'' \<mapsto> ''r1'']\<rparr>"

text \<open>
  The process after socket \<open>s1\<close> has joined room \<open>r1\<close> as Ann, every sample being 0.
\<close>

definition joinedServer :: server where
  "joinedServer =
     (case onJoinGame initialServer ''s1'' ''r1'' ''Ann'' (sconst sampleZero) of
        Inl e \<Rightarrow> initialServer
      | Inr (s, out) \<Rightarrow> s)"

text \<open>The numbers of a column, in order: its cells that are not FREE (nor undefined).\<close>

definition numbersOf :: "cell list \<Rightarrow> int list" where
  "numbersOf cells =
     concat (map (\<lambda>c. case c of Number n \<Rightarrow> [n] | FREE \<Rightarrow> [] | Undefined \<Rightarrow> []) cells)"

text \<open>The range the specification declares for each column of a card.\<close>

definition declaredRange :: "nat \<Rightarrow> int \<times> int" where
  "declaredRange col = [(1, 15), (16, 30), (31, 45), (46, 60), (61, 75)] ! col"

text \<open>Successive draws of one game, one sample each: the results in order, and the game after.\<close>

fun drawMany :: "BingoGame \<Rightarrow> sample list \<Rightarrow> int option list \<times> BingoGame" where
  "drawMany game [] = ([], game)"
| "drawMany game (u # us) =
     (case callNumber game u of
        (r, game') \<Rightarrow>
          (case drawMany game' us of
             (rs, game'') \<Rightarrow> (r # rs, game'')))"

text \<open>
  What holds of the interval handle of every game: while the handle is set the game is
  playing; a game that is playing without a handle has called all of 1..75.
\<close>

definition timerInv :: "BingoGame \<Rightarrow> bool" where
  "timerInv game \<longleftrightarrow>
     (callInterval game \<noteq> None \<longrightarrow> gameState game = Playing)
     \<and> (gameState game = Playing \<and> callInterval game = None \<longrightarrow>
          {1..75} \<subseteq> set (calledNumbers game))"

text \<open>A run of events, each with its samples; it ends at the first handler that throws.\<close>

fun run :: "server \<Rightarrow> (sample stream \<times> event) list \<Rightarrow> error + server" where
  "run s [] = Inr s"
| "run s ((us, ev) # rest) =
     (case step s us ev of
        Inl e \<Rightarrow> Inl e
      | Inr (s', out) \<Rightarrow> run s' rest)"

text \<open>
  Socket \<open>s1\<close> starts the game of room \<open>r1\<close>; then the interval fires 74 times, and once
  more. Every sample is 0.
\<close>

definition startedServer :: server where
  "startedServer =
     (case run joinedServer [(sconst sampleZero, StartGame ''s1'')] of
        Inl e \<Rightarrow> initialServer
      | Inr s \<Rightarrow> s)"

definition fullServer :: server where
  "fullServer =
     (case run startedServer (replicate 74 (sconst sampleZero, Tick ''r1'')) of
        Inl e \<Rightarrow> initialServer
      | Inr s \<Rightarrow> s)"

definition exhaustedServer :: server where
  "exhaustedServer =
     (case run startedServer (replicate 75 (sconst sampleZero, Tick ''r1'')) of
        Inl e \<Rightarrow> initialServer
      | Inr s \<Rightarrow> s)"

definition roomState :: "server \<Rightarrow> string \<Rightarrow> gstate option" where
  "roomState s rid = map_option gameState (games s rid)"

definition roomTimer :: "server \<Rightarrow> string \<Rightarrow> timer option option" where
  "roomTimer s rid = map_option callInterval (games s rid)"

text \<open>
  A complete line, in the words of the specification: some line of the card all of whose
  cells are marked, the FREE cell counting as marked.
\<close>

definition completeLine :: "int list \<Rightarrow> bool" where
  "completeLine marked =
     list_ex (\<lambda>line. list_all (\<lambda>i. i = freeIndex \<or> i \<in> set marked) line) bingoLines"


text \<open>
  An event that resets room \<open>rid\<close>: newGame from a socket whose \<open>roomId\<close> is \<open>rid\<close>.
\<close>

fun resets :: "string \<Rightarrow> server \<Rightarrow> event \<Rightarrow> bool" where
  "resets rid s (NewGame socketId) = (socketRoomId s socketId = Some rid)"
| "resets rid s (JoinGame socketId rid' playerName) = False"
| "resets rid s (StartGame socketId) = False"
| "resets rid s (MarkCell socketId row col) = False"
| "resets rid s (ClaimBingo socketId) = False"
| "resets rid s (Disconnect socketId) = False"
| "resets rid s (Tick rid') = False"

text \<open>
  The states reached from \<open>s\<close> before room \<open>rid\<close> is reset: through any events but a reset
  of the room, and as long as the room stays in the map.
\<close>

inductive untilReset :: "string \<Rightarrow> server \<Rightarrow> server \<Rightarrow> bool"
  for rid :: string and s :: server where
  untilReset_refl: "untilReset rid s s"
| untilReset_step:
    "untilReset rid s s1 \<Longrightarrow> step s1 us ev = Inr (s2, out) \<Longrightarrow> \<not> resets rid s1 ev \<Longrightarrow>
     games s2 rid \<noteq> None \<Longrightarrow> untilReset rid s s2"

text \<open>Two games that differ in their \<open>players\<close> map at most.\<close>

definition onlyPlayersDiffer :: "BingoGame \<Rightarrow> BingoGame \<Rightarrow> bool" where
  "onlyPlayersDiffer game game' \<longleftrightarrow> game'\<lparr>players := players game\<rparr> = game"

text \<open>
  The example process with row 0 of the card called and marked, after \<open>s1\<close> has claimed
  bingo.
\<close>

definition wonServer :: server where
  "wonServer =
     (case onClaimBingo (demoServer [1, 16, 31, 46, 61] [0, 1, 2, 3, 4]) ''s1'' of
        Inl e \<Rightarrow> initialServer
      | Inr (s, out) \<Rightarrow> s)"

section \<open>checkWin\<close>

lemma countMarked_le: "countMarked marked cells \<le> length cells"
  by (simp add: countMarked_def)

lemma countMarked_Nil: "countMarked marked [] = 0"
  by (simp add: countMarked_def)

lemma countMarked_Cons:
  "countMarked marked (c # cells) =
     (if c \<in> set marked then Suc (countMarked marked cells) else countMarked marked cells)"
  by (simp add: countMarked_def setHas_def)

lemma countMarked_full:
  "countMarked marked cells = length cells \<longleftrightarrow> set cells \<subseteq> set marked"
proof (induction cells)
  case Nil
  then show ?case by (simp add: countMarked_Nil)
next
  case (Cons c cells)
  have "countMarked marked cells \<le> length cells" by (rule countMarked_le)
  then show ?case using Cons by (simp add: countMarked_Cons)
qed

lemma countMarked_five:
  "length cells = 5 \<Longrightarrow> countMarked marked cells = 5 \<longleftrightarrow> set cells \<subseteq> set marked"
  using countMarked_full [of marked cells] by simp

lemma checkLines_iff:
  "checkLines marked \<longleftrightarrow> list_ex (\<lambda>line. set line \<subseteq> set marked) bingoLines"
  unfolding checkLines_def bingoLines_def
  by (simp add: countMarked_five rowCells_def colCells_def diag1Cells_def diag2Cells_def
        del: set_simps)

lemma four_of_five:
  assumes "line \<in> set bingoLines" "i \<in> set line" "i \<noteq> freeIndex"
    "set marked = set line - {i}"
  shows "\<not> checkLines (setAdd freeIndex marked)"
  using assms
  unfolding checkLines_iff 
  apply (simp add: bingoLines_def setAdd_def freeIndex_def)
  apply (elim disjE)
  apply auto
  done

lemma checkWin_fst:
  "map_of (players game) socketId = Some p \<Longrightarrow>
   fst (checkWin game socketId) = checkLines (setAdd freeIndex (markedCells p))"
  by (simp add: checkWin_def Let_def)

lemma set_setAdd: "set (setAdd x xs) = insert x (set xs)"
  by (auto simp: setAdd_def)

lemma checkLines_line:
  "line \<in> set bingoLines \<Longrightarrow> set line \<subseteq> set marked \<Longrightarrow> checkLines marked"
  unfolding checkLines_iff list_ex_iff by blast

lemma checkLines_completeLine:
  "checkLines (setAdd freeIndex marked) = completeLine marked"
  unfolding checkLines_iff completeLine_def
  by (simp add: list_ex_iff list_all_iff set_setAdd subset_iff) blast

text \<open>
  Claim C1, as the code has it. For every game and every player of it (whatever the
  card), \<open>checkWin\<close> answers true when the five cells of row 0 are marked, when the five
  cells of column 0 are marked, when the five cells of the main diagonal are marked and
  when the five cells of the anti-diagonal are marked. It answers false for a marked set
  that is a line less one of its cells, when the missing cell is not the FREE cell. A
  line that lacks only the FREE cell is complete, since \<open>checkWin\<close> marks that cell itself:
  \<open>checkWin\<close> answers true whenever the cells of a line other than the FREE cell are all
  marked. Altogether its answer is true exactly when some line has every cell marked or
  FREE.
\<close>

theorem checkWin_lines:
  assumes "map_of (players game) socketId = Some p"
  shows "({0, 1, 2, 3, 4} \<subseteq> set (markedCells p) \<longrightarrow> fst (checkWin game socketId))
       \<and> ({0, 5, 10, 15, 20} \<subseteq> set (markedCells p) \<longrightarrow> fst (checkWin game socketId))
       \<and> ({0, 6, 12, 18, 24} \<subseteq> set (markedCells p) \<longrightarrow> fst (checkWin game socketId))
       \<and> ({4, 8, 12, 16, 20} \<subseteq> set (markedCells p) \<longrightarrow> fst (checkWin game socketId))
       \<and> (\<forall>line \<in> set bingoLines. \<forall>i \<in> set line.
             i \<noteq> freeIndex \<longrightarrow> set (markedCells p) = set line - {i} \<longrightarrow>
             \<not> fst (checkWin game socketId))
       \<and> (\<forall>line \<in> set bingoLines.
             set line - {freeIndex} \<subseteq> set (markedCells p) \<longrightarrow>
             fst (checkWin game socketId))
       \<and> fst (checkWin game socketId) = completeLine (markedCells p)"
proof -
  let ?m = "setAdd freeIndex (markedCells p)"
  have win: "fst (checkWin game socketId) = checkLines ?m"
    using assms by (rule checkWin_fst)
  have sub: "set (markedCells p) \<subseteq> set ?m"
    by (auto simp: set_setAdd)
  have r0: "[0, 1, 2, 3, 4] \<in> set bingoLines" by (simp add: bingoLines_def)
  have c0: "[0, 5, 10, 15, 20] \<in> set bingoLines" by (simp add: bingoLines_def)
  have d1: "[0, 6, 12, 18, 24] \<in> set bingoLines" by (simp add: bingoLines_def)
  have d2: "[4, 8, 12, 16, 20] \<in> set bingoLines" by (simp add: bingoLines_def)
  have full: "set line \<subseteq> set (markedCells p) \<Longrightarrow> line \<in> set bingoLines \<Longrightarrow>
      fst (checkWin game socketId)" for line
    using checkLines_line [of line ?m] sub win by blast
  have partial: "\<not> fst (checkWin game socketId)"
    if "line \<in> set bingoLines" "i \<in> set line" "i \<noteq> freeIndex"
      "set (markedCells p) = set line - {i}" for line i
    using four_of_five [OF that] win by simp
  have free: "fst (checkWin game socketId)"
    if "line \<in> set bingoLines" "set line - {freeIndex} \<subseteq> set (markedCells p)" for line
  proof -
    have "set line \<subseteq> set ?m"
      using that(2) by (auto simp: set_setAdd)
    then show ?thesis
      using checkLines_line [OF that(1)] win by simp
  qed
  have iff: "fst (checkWin game socketId) = completeLine (markedCells p)"
    using win by (simp only: checkLines_completeLine)
  have four: "({0, 1, 2, 3, 4} \<subseteq> set (markedCells p) \<longrightarrow> fst (checkWin game socketId))
       \<and> ({0, 5, 10, 15, 20} \<subseteq> set (markedCells p) \<longrightarrow> fst (checkWin game socketId))
       \<and> ({0, 6, 12, 18, 24} \<subseteq> set (markedCells p) \<longrightarrow> fst (checkWin game socketId))
       \<and> ({4, 8, 12, 16, 20} \<subseteq> set (markedCells p) \<longrightarrow> fst (checkWin game socketId))"
    using full [OF _ r0] full [OF _ c0] full [OF _ d1] full [OF _ d2] by simp
  show ?thesis
    using four partial free iff by blast
qed

text \<open>
  The theorem at work: row 0 marked wins, row 0 less its last cell does not, and column 2
  less the FREE cell wins.
\<close>

theorem checkWin_lines_witness:
  "map_of (players (demoGame [1, 16, 31, 46, 61] [0, 1, 2, 3, 4])) ''s1''
     = Some (demoPlayer [0, 1, 2, 3, 4])
   \<and> {0, 1, 2, 3, 4} \<subseteq> set (markedCells (demoPlayer [0, 1, 2, 3, 4]))
   \<and> fst (checkWin (demoGame [1, 16, 31, 46, 61] [0, 1, 2, 3, 4]) ''s1'')
   \<and> map_of (players (demoGame [1, 16, 31, 46] [0, 1, 2, 3])) ''s1''
     = Some (demoPlayer [0, 1, 2, 3])
   \<and> [0, 1, 2, 3, 4] \<in> set bingoLines \<and> 4 \<in> set [0, 1, 2, 3, 4 :: int] \<and> 4 \<noteq> freeIndex
   \<and> set (markedCells (demoPlayer [0, 1, 2, 3])) = set [0, 1, 2, 3, 4] - {4}
   \<and> \<not> fst (checkWin (demoGame [1, 16, 31, 46] [0, 1, 2, 3]) ''s1'')
   \<and> map_of (players (demoGame [31, 32, 33, 34] [2, 7, 17, 22])) ''s1''
     = Some (demoPlayer [2, 7, 17, 22])
   \<and> [2, 7, 12, 17, 22] \<in> set bingoLines
   \<and> set [2, 7, 12, 17, 22] - {freeIndex} \<subseteq> set (markedCells (demoPlayer [2, 7, 17, 22]))
   \<and> fst (checkWin (demoGame [31, 32, 33, 34] [2, 7, 17, 22]) ''s1'')
   \<and> completeLine (markedCells (demoPlayer [2, 7, 17, 22]))"
proof -
  have a: "map_of (players (demoGame [1, 16, 31, 46, 61] [0, 1, 2, 3, 4])) ''s1''
     = Some (demoPlayer [0, 1, 2, 3, 4])"
    by (simp add: demoGame_def)
  have b: "map_of (players (demoGame [1, 16, 31, 46] [0, 1, 2, 3])) ''s1''
     = Some (demoPlayer [0, 1, 2, 3])"
    by (simp add: demoGame_def)
  have c: "[0, 1, 2, 3, 4] \<in> set bingoLines" by (simp add: bingoLines_def)
  have d: "set (markedCells (demoPlayer [0, 1, 2, 3])) = set [0, 1, 2, 3, 4] - {4}"
    by (auto simp: demoPlayer_def)
  have e: "{0, 1, 2, 3, 4} \<subseteq> set (markedCells (demoPlayer [0, 1, 2, 3, 4]))"
    by (simp add: demoPlayer_def)
  have f: "(4::int) \<noteq> freeIndex" by (simp add: freeIndex_def)
  from checkWin_lines [OF a] e
  have w1: "fst (checkWin (demoGame [1, 16, 31, 46, 61] [0, 1, 2, 3, 4]) ''s1'')" by blast
  from checkWin_lines [OF b] c d f
  have w2: "\<not> fst (checkWin (demoGame [1, 16, 31, 46] [0, 1, 2, 3]) ''s1'')"
    by (metis insertI1 list.set_intros(2) list.simps(15))
  have g: "map_of (players (demoGame [31, 32, 33, 34] [2, 7, 17, 22])) ''s1''
     = Some (demoPlayer [2, 7, 17, 22])"
    by (simp add: demoGame_def)
  have h: "[2, 7, 12, 17, 22] \<in> set bingoLines" by (simp add: bingoLines_def)
  have i: "set [2, 7, 12, 17, 22] - {freeIndex}
      \<subseteq> set (markedCells (demoPlayer [2, 7, 17, 22]))"
    by (auto simp: demoPlayer_def freeIndex_def)
  note t = checkWin_lines [OF g]
  from t have "\<forall>line \<in> set bingoLines.
      set line - {freeIndex} \<subseteq> set (markedCells (demoPlayer [2, 7, 17, 22])) \<longrightarrow>
      fst (checkWin (demoGame [31, 32, 33, 34] [2, 7, 17, 22]) ''s1'')"
    by blast
  from this [rule_format, OF h i]
  have w3: "fst (checkWin (demoGame [31, 32, 33, 34] [2, 7, 17, 22]) ''s1'')" .
  from t have "fst (checkWin (demoGame [31, 32, 33, 34] [2, 7, 17, 22]) ''s1'')
      = completeLine (markedCells (demoPlayer [2, 7, 17, 22]))"
    by blast
  then have w4: "completeLine (markedCells (demoPlayer [2, 7, 17, 22]))"
    using w3 by simp
  have first: "map_of (players (demoGame [1, 16, 31, 46, 61] [0, 1, 2, 3, 4])) ''s1''
     = Some (demoPlayer [0, 1, 2, 3, 4])
   \<and> {0, 1, 2, 3, 4} \<subseteq> set (markedCells (demoPlayer [0, 1, 2, 3, 4]))
   \<and> fst (checkWin (demoGame [1, 16, 31, 46, 61] [0, 1, 2, 3, 4]) ''s1'')
   \<and> map_of (players (demoGame [1, 16, 31, 46] [0, 1, 2, 3])) ''s1''
     = Some (demoPlayer [0, 1, 2, 3])
   \<and> [0, 1, 2, 3, 4] \<in> set bingoLines \<and> 4 \<in> set [0, 1, 2, 3, 4 :: int] \<and> 4 \<noteq> freeIndex
   \<and> set (markedCells (demoPlayer [0, 1, 2, 3])) = set [0, 1, 2, 3, 4] - {4}
   \<and> \<not> fst (checkWin (demoGame [1, 16, 31, 46] [0, 1, 2, 3]) ''s1'')"
    using a b c d e f w1 w2 by simp
  show ?thesis using first g h i w3 w4 by blast
qed

text \<open>
  Claim C1 as it is worded fails: the marked set 10, 11, 13, 14 covers four of the five
  cells of row 2 (all but the FREE cell 12), and \<open>checkWin\<close> answers true.
\<close>

theorem partial_line_counterexample:
  "set [10, 11, 13, 14] = set [10, 11, 12, 13, 14] - {12 :: int}
   \<and> [10, 11, 12, 13, 14] \<in> set bingoLines
   \<and> map_of (players (demoGame [3, 18, 48, 63] [10, 11, 13, 14])) ''s1''
       = Some (demoPlayer [10, 11, 13, 14])
   \<and> fst (checkWin (demoGame [3, 18, 48, 63] [10, 11, 13, 14]) ''s1'')"
proof -
  have "set [10, 11, 13, 14] = set [10, 11, 12, 13, 14] - {12 :: int}"
    by auto
  moreover have "[10, 11, 12, 13, 14] \<in> set bingoLines"
    by (simp add: bingoLines_def)
  moreover have "map_of (players (demoGame [3, 18, 48, 63] [10, 11, 13, 14])) ''s1''
       = Some (demoPlayer [10, 11, 13, 14])"
    by (simp add: demoGame_def)
  moreover have "fst (checkWin (demoGame [3, 18, 48, 63] [10, 11, 13, 14]) ''s1'')"
    by (simp add: demoGame_def demoPlayer_def checkWin_def Let_def setAdd_def
        freeIndex_def checkLines_def countMarked_def setHas_def rowCells_def)
  ultimately show ?thesis by blast
qed

subsection \<open>What checkWin changes\<close>

lemma map_of_update_other:
  "other \<noteq> k \<Longrightarrow> map_of (AList.update k v al) other = map_of al other"
  by (simp add: update_conv')

lemma map_of_update_same: "map_of (AList.update k v al) k = Some v"
  by (simp add: update_conv')

lemma update_keys_present:
  "map_of al k = Some v0 \<Longrightarrow> map fst (AList.update k v al) = map fst al"
  by (induction al) (auto split: if_splits)

lemma setAdd_present: "x \<in> set xs \<Longrightarrow> setAdd x xs = xs"
  by (simp add: setAdd_def)

lemma setAdd_idem: "setAdd x (setAdd x xs) = setAdd x xs"
  by (simp add: setAdd_def)

lemma checkWin_snd:
  "map_of (players game) socketId = Some p \<Longrightarrow>
   snd (checkWin game socketId) =
     game\<lparr>players := AList.update socketId
        (p\<lparr>markedCells := setAdd freeIndex (markedCells p)\<rparr>) (players game)\<rparr>"
  by (simp add: checkWin_def Let_def)

lemma checkWin_unknown:
  "map_of (players game) socketId = None \<Longrightarrow> checkWin game socketId = (False, game)"
  by (simp add: checkWin_def)

text \<open>
  Claim C6, as the code has it. \<open>checkWin\<close> is not free of effects: it adds the FREE index
  12 to the \<open>markedCells\<close> set of the player it checks, and that is all it changes. Every
  field of the game but \<open>players\<close> is as before, the keys of \<open>players\<close> and every other
  player are as before, the player checked keeps id, name and card and has 12 added to
  the marked set; when 12 was marked already the game is unchanged; and a second check
  changes nothing more and gives the same answer.
\<close>

theorem checkWin_effect:
  assumes "map_of (players game) socketId = Some p"
  shows "(snd (checkWin game socketId))\<lparr>players := players game\<rparr> = game
       \<and> map fst (players (snd (checkWin game socketId))) = map fst (players game)
       \<and> (\<forall>other. other \<noteq> socketId \<longrightarrow>
             map_of (players (snd (checkWin game socketId))) other = map_of (players game) other)
       \<and> map_of (players (snd (checkWin game socketId))) socketId
            = Some (p\<lparr>markedCells := setAdd freeIndex (markedCells p)\<rparr>)
       \<and> set (setAdd freeIndex (markedCells p)) = insert 12 (set (markedCells p))
       \<and> (12 \<in> set (markedCells p) \<longrightarrow> snd (checkWin game socketId) = game)
       \<and> checkWin (snd (checkWin game socketId)) socketId = checkWin game socketId"
proof -
  let ?p' = "p\<lparr>markedCells := setAdd freeIndex (markedCells p)\<rparr>"
  let ?g' = "snd (checkWin game socketId)"
  have g': "?g' = game\<lparr>players := AList.update socketId ?p' (players game)\<rparr>"
    using assms by (rule checkWin_snd)
  have frame: "?g'\<lparr>players := players game\<rparr> = game"
    by (simp add: g')
  have keys: "map fst (players ?g') = map fst (players game)"
    using update_keys_present [OF assms] by (simp add: g')
  have others: "\<forall>other. other \<noteq> socketId \<longrightarrow>
      map_of (players ?g') other = map_of (players game) other"
    by (simp add: g' map_of_update_other)
  have self: "map_of (players ?g') socketId = Some ?p'"
    by (simp add: g' map_of_update_same)
  have marked: "set (setAdd freeIndex (markedCells p)) = insert 12 (set (markedCells p))"
    by (simp add: set_setAdd freeIndex_def)
  have same: "snd (checkWin game socketId) = game" if "12 \<in> set (markedCells p)"
  proof -
    from that have "?p' = p" by (simp add: setAdd_present freeIndex_def)
    then show ?thesis using assms by (simp add: g' update_triv)
  qed
  have again: "checkWin ?g' socketId = checkWin game socketId"
  proof -
    have "fst (checkWin ?g' socketId) = checkLines (setAdd freeIndex (markedCells ?p'))"
      using self by (rule checkWin_fst)
    then have a: "fst (checkWin ?g' socketId) = fst (checkWin game socketId)"
      using checkWin_fst [OF assms] by (simp add: setAdd_idem)
    have "snd (checkWin ?g' socketId) =
        ?g'\<lparr>players := AList.update socketId
           (?p'\<lparr>markedCells := setAdd freeIndex (markedCells ?p')\<rparr>) (players ?g')\<rparr>"
      using self by (rule checkWin_snd)
    then have b: "snd (checkWin ?g' socketId) = ?g'"
      by (simp add: setAdd_idem g')
    show ?thesis using a b by (simp add: prod_eq_iff)
  qed
  show ?thesis using frame keys others self marked same again by blast
qed

text \<open>On the example game: an empty marked set becomes the set of 12; a set with 12 stays.\<close>

theorem checkWin_effect_witness:
  "map_of (players (demoGame [1] [])) ''s1'' = Some (demoPlayer [])
   \<and> map_of (players (snd (checkWin (demoGame [1] []) ''s1''))) ''s1'' = Some (demoPlayer [12])
   \<and> map_of (players (demoGame [1] [12])) ''s1'' = Some (demoPlayer [12])
   \<and> 12 \<in> set (markedCells (demoPlayer [12]))
   \<and> snd (checkWin (demoGame [1] [12]) ''s1'') = demoGame [1] [12]"
proof -
  have a: "map_of (players (demoGame [1] [])) ''s1'' = Some (demoPlayer [])"
    by (simp add: demoGame_def)
  have b: "map_of (players (demoGame [1] [12])) ''s1'' = Some (demoPlayer [12])"
    by (simp add: demoGame_def)
  have c: "12 \<in> set (markedCells (demoPlayer [12]))"
    by (simp add: demoPlayer_def)
  have d: "(demoPlayer [])\<lparr>markedCells := setAdd freeIndex (markedCells (demoPlayer []))\<rparr>
      = demoPlayer [12]"
    by (simp add: demoPlayer_def setAdd_def freeIndex_def)
  from checkWin_effect [OF a] d
  have w1: "map_of (players (snd (checkWin (demoGame [1] []) ''s1''))) ''s1''
      = Some (demoPlayer [12])" by simp
  from checkWin_effect [OF b] c
  have w2: "snd (checkWin (demoGame [1] [12]) ''s1'') = demoGame [1] [12]" by blast
  show ?thesis using a b c w1 w2 by blast
qed

text \<open>
  Claim C6 as it is worded fails: before the check the player's marked set is empty,
  after it the set holds 12.
\<close>

theorem checkWin_mutates_counterexample:
  "map_option markedCells (map_of (players (demoGame [1] [])) ''s1'') = Some []
   \<and> map_option markedCells (map_of (players (snd (checkWin (demoGame [1] []) ''s1''))) ''s1'')
       = Some [12]"
  by (simp add: demoGame_def demoPlayer_def checkWin_def Let_def setAdd_def freeIndex_def)

section \<open>markCell\<close>

lemma arrayAt_in_range:
  "0 \<le> i \<Longrightarrow> i < int (length xs) \<Longrightarrow> arrayAt xs i = Some (xs ! nat i)"
  by (simp add: arrayAt_def)

lemma arrayAt_outside:
  "i < 0 \<or> int (length xs) \<le> i \<Longrightarrow> arrayAt xs i = None"
  by (auto simp: arrayAt_def)

lemma resolveGame_Some:
  "resolveGame s socketId = Some (rid, game) \<longleftrightarrow>
     socketRoomId s socketId = Some rid \<and> rid \<noteq> [] \<and> games s rid = Some game"
  by (auto simp: resolveGame_def split: option.splits)

lemma onMarkCell_in_card:
  assumes "resolveGame s socketId = Some (rid, game)"
    and "map_of (players game) socketId = Some p"
    and "arrayAt (card_p p) col = Some column"
  shows "onMarkCell s socketId row col =
     (let cellValue = (case arrayAt column row of None \<Rightarrow> Undefined | Some v \<Rightarrow> v)
      in if cellValue = FREE \<or> arrayIncludes (calledNumbers game) cellValue
         then Inr (s\<lparr>games := (games s)(rid \<mapsto>
                      game\<lparr>players :=
                        AList.update socketId
                          (p\<lparr>markedCells := setAdd (row * 5 + col) (markedCells p)\<rparr>)
                          (players game)\<rparr>)\<rparr>,
                   [SocketEmit socketId (CellMarked row col)])
         else Inr (s, []))"
  using assms by (simp add: onMarkCell_def Let_def)

lemma onMarkCell_outside_card:
  assumes "resolveGame s socketId = Some (rid, game)"
    and "map_of (players game) socketId = Some p"
    and "col < 0 \<or> int (length (card_p p)) \<le> col"
  shows "onMarkCell s socketId row col = Inl TypeError"
  using assms arrayAt_outside [of col "card_p p"] by (simp add: onMarkCell_def Let_def)

lemma arrayIncludes_iff:
  "arrayIncludes xs v \<longleftrightarrow> (\<exists>n \<in> set xs. v = Number n)"
  by (cases v) (auto simp: arrayIncludes_def)

text \<open>
  Claim C4. For a socket whose room resolves, a player of the room holding a 5 by 5 card,
  and \<open>row\<close> and \<open>col\<close> in 0..4: markCell does not throw; when the card value at
  \<open>card[col][row]\<close> is FREE or a called number, the player's marked set gains the index
  \<open>row * 5 + col\<close> and the socket gets the acknowledgement; otherwise nothing changes and
  nothing is sent.
\<close>

theorem markCell_marks_iff_free_or_called:
  assumes "resolveGame s socketId = Some (rid, game)"
    and "map_of (players game) socketId = Some p"
    and "length (card_p p) = 5"
    and "\<forall>column \<in> set (card_p p). length column = 5"
    and "0 \<le> row" "row \<le> 4" "0 \<le> col" "col \<le> 4"
  shows "\<exists>s' out. onMarkCell s socketId row col = Inr (s', out) \<and>
     (if card_p p ! nat col ! nat row = FREE
         \<or> (\<exists>n \<in> set (calledNumbers game). card_p p ! nat col ! nat row = Number n)
      then markedOf s' rid socketId = Some (setAdd (row * 5 + col) (markedCells p))
         \<and> set (setAdd (row * 5 + col) (markedCells p))
             = insert (row * 5 + col) (set (markedCells p))
         \<and> out = [SocketEmit socketId (CellMarked row col)]
      else s' = s \<and> markedOf s' rid socketId = Some (markedCells p) \<and> out = [])"
proof -
  let ?column = "card_p p ! nat col"
  have col_in: "arrayAt (card_p p) col = Some ?column"
    using assms by (simp add: arrayAt_in_range)
  have "?column \<in> set (card_p p)"
    using assms by simp
  then have "length ?column = 5"
    using assms by blast
  then have row_in: "arrayAt ?column row = Some (?column ! nat row)"
    using assms by (simp add: arrayAt_in_range)
  have room: "games s rid = Some game"
    using assms by (simp add: resolveGame_Some)
  note run = onMarkCell_in_card [OF assms(1,2) col_in, of row]
  show ?thesis
  proof (cases "?column ! nat row = FREE
         \<or> (\<exists>n \<in> set (calledNumbers game). ?column ! nat row = Number n)")
    case True
    then show ?thesis
      using run row_in room assms(2)
      by (simp add: arrayIncludes_iff markedOf_def set_setAdd map_of_update_same)
  next
    case False
    then show ?thesis
      using run row_in room assms(2)
      by (simp add: arrayIncludes_iff markedOf_def)
  qed
qed

lemma demoServer_resolves:
  "resolveGame (demoServer called marked) ''s1'' = Some (''r1'', demoGame called marked)"
  by (simp add: resolveGame_def demoServer_def)

lemma demoGame_player:
  "map_of (players (demoGame called marked)) ''s1'' = Some (demoPlayer marked)"
  by (simp add: demoGame_def)

lemma demoCard_shape:
  "length (card_p (demoPlayer marked)) = 5
   \<and> (\<forall>column \<in> set (card_p (demoPlayer marked)). length column = 5)"
  by (simp add: demoPlayer_def demoCard_def)

text \<open>
  On the example game with 1 called: cell (row 0, col 0) holds 1 and is marked, the FREE
  cell (row 2, col 2) is marked, and cell (row 1, col 0), which holds 2, is not.
\<close>

theorem markCell_marks_iff_free_or_called_witness:
  "resolveGame (demoServer [1] []) ''s1'' = Some (''r1'', demoGame [1] [])
   \<and> map_of (players (demoGame [1] [])) ''s1'' = Some (demoPlayer [])
   \<and> length (card_p (demoPlayer [])) = 5
   \<and> list_all (\<lambda>column. length column = 5) (card_p (demoPlayer []))
   \<and> card_p (demoPlayer []) ! nat 0 ! nat 0 = Number 1
   \<and> map_option (\<lambda>r. (markedOf (fst r) ''r1'' ''s1'', snd r)) 
        (case onMarkCell (demoServer [1] []) ''s1'' 0 0 of Inl e \<Rightarrow> None | Inr r \<Rightarrow> Some r)
       = Some (Some [0], [SocketEmit ''s1'' (CellMarked 0 0)])
   \<and> card_p (demoPlayer []) ! nat 2 ! nat 2 = FREE
   \<and> map_option (\<lambda>r. (markedOf (fst r) ''r1'' ''s1'', snd r)) 
        (case onMarkCell (demoServer [1] []) ''s1'' 2 2 of Inl e \<Rightarrow> None | Inr r \<Rightarrow> Some r)
       = Some (Some [12], [SocketEmit ''s1'' (CellMarked 2 2)])
   \<and> card_p (demoPlayer []) ! nat 0 ! nat 1 = Number 2
   \<and> onMarkCell (demoServer [1] []) ''s1'' 1 0 = Inr (demoServer [1] [], [])"
proof -
  note shape = demoCard_shape [of "[]"]
  have cells: "card_p (demoPlayer []) ! nat 0 ! nat 0 = Number 1"
    "card_p (demoPlayer []) ! nat 2 ! nat 2 = FREE"
    "card_p (demoPlayer []) ! nat 0 ! nat 1 = Number 2"
    by (simp_all add: demoPlayer_def demoCard_def)
  have called: "calledNumbers (demoGame [1] []) = [1]" "markedCells (demoPlayer []) = []"
    by (simp_all add: demoGame_def demoPlayer_def)
  have a: "map_option (\<lambda>r. (markedOf (fst r) ''r1'' ''s1'', snd r)) 
        (case onMarkCell (demoServer [1] []) ''s1'' 0 0 of Inl e \<Rightarrow> None | Inr r \<Rightarrow> Some r)
       = Some (Some [0], [SocketEmit ''s1'' (CellMarked 0 0)])"
    using markCell_marks_iff_free_or_called
      [OF demoServer_resolves demoGame_player conjunct1 [OF shape] conjunct2 [OF shape],
       of 0 0 "[1]"] cells called
    by (auto simp: setAdd_def)
  have b: "map_option (\<lambda>r. (markedOf (fst r) ''r1'' ''s1'', snd r)) 
        (case onMarkCell (demoServer [1] []) ''s1'' 2 2 of Inl e \<Rightarrow> None | Inr r \<Rightarrow> Some r)
       = Some (Some [12], [SocketEmit ''s1'' (CellMarked 2 2)])"
    using markCell_marks_iff_free_or_called
      [OF demoServer_resolves demoGame_player conjunct1 [OF shape] conjunct2 [OF shape],
       of 2 2 "[1]"] cells called
    by (auto simp: setAdd_def)
  have c: "onMarkCell (demoServer [1] []) ''s1'' 1 0 = Inr (demoServer [1] [], [])"
    using markCell_marks_iff_free_or_called
      [OF demoServer_resolves demoGame_player conjunct1 [OF shape] conjunct2 [OF shape],
       of 1 0 "[1]"] cells called
    by auto
  show ?thesis
    using a b c cells shape demoServer_resolves [of "[1]" "[]"] demoGame_player [of "[1]" "[]"]
    by (simp add: list_all_iff)
qed

section \<open>Random indices\<close>

lemma Rep_sampleZero: "Rep_sample sampleZero = 0"
  by (simp add: sampleZero_def Abs_sample_inverse)

lemma randomIndex_zero: "randomIndex sampleZero n = 0"
  by (simp add: randomIndex_def Rep_sampleZero)

lemma randomIndex_less:
  assumes "0 < n"
  shows "randomIndex u n < n"
proof -
  have u: "0 \<le> Rep_sample u" "Rep_sample u < 1"
    using Rep_sample [of u] by simp_all
  have "Rep_sample u * real n < 1 * real n"
    using u assms by (intro mult_strict_right_mono) simp_all
  then have "\<lfloor>Rep_sample u * real n\<rfloor> < int n"
    by (simp add: floor_less_iff)
  moreover have "0 \<le> \<lfloor>Rep_sample u * real n\<rfloor>"
    using u by simp
  ultimately show ?thesis
    by (simp add: randomIndex_def nat_less_iff)
qed

section \<open>The example states\<close>

lemma splice1_zero: "splice1 (x # xs) 0 = (Number x, xs)"
  by (simp add: splice1_def)

lemma genColumn_zero:
  "genColumn 0 (sconst sampleZero) = (demoCard ! 0, sconst sampleZero)"
  "genColumn 1 (sconst sampleZero) = (demoCard ! 1, sconst sampleZero)"
  "genColumn 2 (sconst sampleZero) = (demoCard ! 2, sconst sampleZero)"
  "genColumn 3 (sconst sampleZero) = (demoCard ! 3, sconst sampleZero)"
  "genColumn 4 (sconst sampleZero) = (demoCard ! 4, sconst sampleZero)"
  by (simp_all add: genColumn_def ranges_def randomIndex_zero splice1_zero demoCard_def
      upto.simps)

lemma generateBingoCard_zero:
  "generateBingoCard (sconst sampleZero) = (demoCard, sconst sampleZero)"
  by (simp add: generateBingoCard_def genColumn_zero) (simp add: demoCard_def)

lemma joinedServer_eq:
  "joinedServer =
     \<lparr>games = [''r1'' \<mapsto> (newBingoGame ''r1'')\<lparr>players := [(''s1'', demoPlayer [])]\<rparr>],
      socketRoomId = [''s1'' \<mapsto> ''r1'']\<rparr>"
  by (simp add: joinedServer_def onJoinGame_def initialServer_def addPlayer_def
      generateBingoCard_zero newBingoGame_def demoPlayer_def Let_def)

lemma joinedServer_step:
  "step initialServer (sconst sampleZero) (JoinGame ''s1'' ''r1'' ''Ann'')
     = Inr (joinedServer,
            [SocketEmit ''s1'' (GameJoined demoCard ''Ann''
               \<lparr>st_roomId = ''r1'', st_playerCount = 1, st_calledNumbers = [],
                st_currentNumber = None, st_gameState = Waiting, st_winner = None\<rparr>),
             IoTo ''r1'' (PlayerJoined ''Ann'' 1)])"
  by (simp add: joinedServer_eq onJoinGame_def initialServer_def addPlayer_def
      generateBingoCard_zero newBingoGame_def demoPlayer_def Let_def getState_def)

lemma joinedServer_reachable: "reachable joinedServer"
  using reachable_step [OF reachable_init joinedServer_step] .

section \<open>Faults\<close>

text \<open>
  Claim C7 at its failing input. Socket \<open>s1\<close> has joined room \<open>r1\<close> (a reachable state) and
  sends markCell with row 0 and col 5: \<open>player.card[5]\<close> is undefined and the handler
  throws a TypeError. A row outside 0..4 with a column inside does not throw.
\<close>

theorem markCell_col_outside_throws:
  "reachable joinedServer
   \<and> step joinedServer (sconst sampleZero) (MarkCell ''s1'' 0 5) = Inl TypeError
   \<and> step joinedServer (sconst sampleZero) (MarkCell ''s1'' 0 (- 1)) = Inl TypeError
   \<and> step joinedServer (sconst sampleZero) (MarkCell ''s1'' 5 0) = Inr (joinedServer, [])"
  using joinedServer_reachable
  by (simp add: joinedServer_eq onMarkCell_def resolveGame_def newBingoGame_def demoPlayer_def
      demoCard_def arrayAt_def arrayIncludes_def Let_def)

subsection \<open>Where a handler can throw\<close>

lemma addPlayer_players:
  "players (fst (addPlayer game socketId shown us)) =
     AList.update socketId
       \<lparr>id_p = socketId, name_p = shown, card_p = fst (generateBingoCard us),
        markedCells = []\<rparr> (players game)"
  by (simp add: addPlayer_def split: prod.splits)

lemma addPlayer_frame:
  "(fst (addPlayer game socketId shown us))\<lparr>players := players game\<rparr> = game"
  by (simp add: addPlayer_def split: prod.splits)

lemma addPlayer_player:
  "map_of (players (fst (addPlayer game socketId shown us))) socketId =
     Some \<lparr>id_p = socketId, name_p = shown, card_p = fst (generateBingoCard us),
           markedCells = []\<rparr>"
  by (simp add: addPlayer_players map_of_update_same)

lemma onJoinGame_no_fault: "onJoinGame s socketId rid playerName us \<noteq> Inl e"
  by (simp add: onJoinGame_def Let_def addPlayer_player)

lemma onMarkCell_fault_iff:
  "onMarkCell s socketId row col = Inl e \<longleftrightarrow>
     (\<exists>rid game p. resolveGame s socketId = Some (rid, game)
        \<and> map_of (players game) socketId = Some p
        \<and> (col < 0 \<or> int (length (card_p p)) \<le> col))"
  by (cases e) (auto simp: onMarkCell_def Let_def arrayAt_def split: option.splits)

text \<open>
  The only fault of the process: markCell by a player of a resolved room with \<open>col\<close> outside
  the card. Every other event, with every payload, returns.
\<close>

lemma step_fault_iff:
  "step s us ev = Inl e \<longleftrightarrow>
     (\<exists>socketId row col rid game p. ev = MarkCell socketId row col
        \<and> resolveGame s socketId = Some (rid, game)
        \<and> map_of (players game) socketId = Some p
        \<and> (col < 0 \<or> int (length (card_p p)) \<le> col))"
proof (cases ev)
  case (JoinGame socketId rid playerName)
  then show ?thesis by (simp add: onJoinGame_no_fault)
next
  case (StartGame socketId)
  then show ?thesis by (simp add: onStartGame_def Let_def split: option.splits)
next
  case (MarkCell socketId row col)
  then show ?thesis by (simp add: onMarkCell_fault_iff)
next
  case (ClaimBingo socketId)
  then show ?thesis
    by (simp add: onClaimBingo_def Let_def split: option.splits prod.splits)
next
  case (NewGame socketId)
  then show ?thesis by (simp add: onNewGame_def Let_def split: option.splits)
next
  case (Disconnect socketId)
  then show ?thesis by (simp add: onDisconnect_def Let_def split: option.splits)
next
  case (Tick rid)
  then show ?thesis by (simp add: onTick_def split: option.splits)
qed

section \<open>generateBingoCard\<close>

lemma numbersOf_simps:
  "numbersOf [] = []"
  "numbersOf (Number n # cells) = n # numbersOf cells"
  "numbersOf (FREE # cells) = numbersOf cells"
  by (simp_all add: numbersOf_def)

lemma splice1_in_range:
  "i < length available \<Longrightarrow>
   splice1 available i = (Number (available ! i), take i available @ drop (Suc i) available)"
  by (simp add: splice1_def)

lemma remove_nth_props:
  assumes "i < length av" and "distinct av"
  shows "distinct (take i av @ drop (Suc i) av)"
    and "set (take i av @ drop (Suc i) av) = set av - {av ! i}"
    and "length (take i av @ drop (Suc i) av) = length av - 1"
proof -
  have split: "av = take i av @ av ! i # drop (Suc i) av"
    using assms(1) by (rule id_take_nth_drop)
  have d: "distinct (take i av @ av ! i # drop (Suc i) av)"
    using assms(2) split by simp
  show "distinct (take i av @ drop (Suc i) av)"
    using d by simp
  have "set av = set (take i av @ av ! i # drop (Suc i) av)"
    using split by simp
  then show "set (take i av @ drop (Suc i) av) = set av - {av ! i}"
    using d by auto
  show "length (take i av @ drop (Suc i) av) = length av - 1"
    using assms(1) by simp
qed

lemma fillRows_fst_Cons:
  "fst (fillRows col (row # rows) av us) =
     (if col = 2 \<and> row = 2 then FREE # fst (fillRows col rows av us)
      else fst (splice1 av (randomIndex (shd us) (length av))) #
           fst (fillRows col rows (snd (splice1 av (randomIndex (shd us) (length av))))
                  (stl us)))"
  by (simp add: split_beta)

lemma fillRows_props:
  assumes "distinct av" and "length rows \<le> length av"
  shows "list_all2 (\<lambda>row c. if col = 2 \<and> row = 2 then c = FREE
                             else (\<exists>n \<in> set av. c = Number n))
           rows (fst (fillRows col rows av us))
       \<and> distinct (numbersOf (fst (fillRows col rows av us)))
       \<and> set (numbersOf (fst (fillRows col rows av us))) \<subseteq> set av"
  using assms
proof (induction rows arbitrary: av us)
  case Nil
  then show ?case by (simp add: numbersOf_simps)
next
  case (Cons row rows)
  show ?case
  proof (cases "col = 2 \<and> row = 2")
    case True
    have "length rows \<le> length av" using Cons.prems by simp
    from Cons.IH [OF Cons.prems(1) this, of us] True
    show ?thesis by (simp add: fillRows_fst_Cons numbersOf_simps del: fillRows.simps)
  next
    case False
    let ?i = "randomIndex (shd us) (length av)"
    let ?av' = "take ?i av @ drop (Suc ?i) av"
    have pos: "0 < length av" using Cons.prems(2) by (cases av) simp_all
    then have i: "?i < length av" by (rule randomIndex_less)
    note rm = remove_nth_props [OF i Cons.prems(1)]
    have len: "length rows \<le> length ?av'"
      using rm(3) Cons.prems(2) by simp
    note ih = Cons.IH [OF rm(1) len, of "stl us"]
    let ?rest = "fst (fillRows col rows ?av' (stl us))"
    have eq: "fst (fillRows col (row # rows) av us) = Number (av ! ?i) # ?rest"
      using False by (simp add: fillRows_fst_Cons splice1_in_range [OF i] del: fillRows.simps)
    have sub: "set ?av' \<subseteq> set av" using rm(2) by blast
    have all2: "list_all2 (\<lambda>row c. if col = 2 \<and> row = 2 then c = FREE
                             else (\<exists>n \<in> set av. c = Number n)) rows ?rest"
      using ih sub by (auto elim!: list_all2_mono split: if_splits)
    have fresh: "av ! ?i \<notin> set (numbersOf ?rest)"
      using ih rm(2) by blast
    have mem: "av ! ?i \<in> set av" using i by simp
    show ?thesis
      using False all2 fresh mem ih sub by (auto simp: eq numbersOf_simps simp del: fillRows.simps)
  qed
qed

lemma fillRows_length: "length (fst (fillRows col rows av us)) = length rows"
  by (induction rows arbitrary: av us) (auto simp: fillRows_fst_Cons simp del: fillRows.simps(2))

lemma genColumn_props:
  assumes "c < 5"
  shows "length (fst (genColumn (int c) us)) = 5
       \<and> (\<forall>r < 5. if c = 2 \<and> r = 2 then fst (genColumn (int c) us) ! r = FREE
               else (\<exists>n. fst (genColumn (int c) us) ! r = Number n
                       \<and> 15 * int c + 1 \<le> n \<and> n \<le> 15 * int c + 15))
       \<and> distinct (numbersOf (fst (genColumn (int c) us)))
       \<and> set (numbersOf (fst (genColumn (int c) us))) \<subseteq> {15 * int c + 1 .. 15 * int c + 15}"
proof -
  let ?av = "[15 * int c + 1 .. 15 * int c + 15]"
  have c: "c = 0 \<or> c = 1 \<or> c = 2 \<or> c = 3 \<or> c = 4" using assms by arith
  then have gen: "genColumn (int c) us = fillRows (int c) [0, 1, 2, 3, 4] ?av us"
    by (auto simp: genColumn_def ranges_def)
  have "distinct ?av" "length [0, 1, 2, 3, 4 :: int] \<le> length ?av"
    by simp_all
  from fillRows_props [OF this, of "int c" us]
  have all2: "list_all2 (\<lambda>row cl. if int c = 2 \<and> row = 2 then cl = FREE
                             else (\<exists>n \<in> set ?av. cl = Number n))
           [0, 1, 2, 3, 4 :: int] (fst (genColumn (int c) us))"
    and dist: "distinct (numbersOf (fst (genColumn (int c) us)))"
    and sub: "set (numbersOf (fst (genColumn (int c) us))) \<subseteq> set ?av"
    unfolding gen by blast+
  have len: "length (fst (genColumn (int c) us)) = 5"
    unfolding gen by (simp add: fillRows_length del: fillRows.simps)
  have cells: "if c = 2 \<and> r = 2 then fst (genColumn (int c) us) ! r = FREE
               else (\<exists>n. fst (genColumn (int c) us) ! r = Number n
                       \<and> 15 * int c + 1 \<le> n \<and> n \<le> 15 * int c + 15)" if "r < 5" for r
  proof -
    have r: "r = 0 \<or> r = 1 \<or> r = 2 \<or> r = 3 \<or> r = 4" using that by arith
    have "r < length [0, 1, 2, 3, 4 :: int]" using that by simp
    from list_all2_nthD [OF all2 this] r
    show ?thesis by (auto split: if_splits)
  qed
  have sub': "set (numbersOf (fst (genColumn (int c) us)))
      \<subseteq> {15 * int c + 1 .. 15 * int c + 15}"
    using sub by simp
  show ?thesis using len cells dist sub' by blast
qed

lemma declaredRange_eq:
  "col < 5 \<Longrightarrow> declaredRange col = (15 * int col + 1, 15 * int col + 15)"
proof -
  assume "col < 5"
  then have "col = 0 \<or> col = 1 \<or> col = 2 \<or> col = 3 \<or> col = 4" by arith
  then show ?thesis by (auto simp: declaredRange_def)
qed

lemma generateBingoCard_columns:
  "\<exists>u0 u1 u2 u3 u4. fst (generateBingoCard us) =
     [fst (genColumn 0 u0), fst (genColumn 1 u1), fst (genColumn 2 u2),
      fst (genColumn 3 u3), fst (genColumn 4 u4)]"
  by (simp add: generateBingoCard_def split_beta) blast

text \<open>
  Claim C9. Whatever the samples, the card \<open>generateBingoCard\<close> returns has five columns of
  five cells; the cell at row 2 of column 2 is FREE; every other cell is a number of its
  column's declared range (column 0: 1 to 15, column 1: 16 to 30, column 2: 31 to 45,
  column 3: 46 to 60, column 4: 61 to 75); and the numbers of the card are pairwise
  distinct.
\<close>

theorem generateBingoCard_valid:
  "length (fst (generateBingoCard us)) = 5
   \<and> (\<forall>col < 5. length (fst (generateBingoCard us) ! col) = 5)
   \<and> fst (generateBingoCard us) ! 2 ! 2 = FREE
   \<and> (\<forall>col < 5. \<forall>row < 5. \<not> (col = 2 \<and> row = 2) \<longrightarrow>
         (\<exists>n. fst (generateBingoCard us) ! col ! row = Number n
            \<and> fst (declaredRange col) \<le> n \<and> n \<le> snd (declaredRange col)))
   \<and> distinct (concat (map numbersOf (fst (generateBingoCard us))))"
proof -
  obtain u0 u1 u2 u3 u4 where card: "fst (generateBingoCard us) =
     [fst (genColumn 0 u0), fst (genColumn 1 u1), fst (genColumn 2 u2),
      fst (genColumn 3 u3), fst (genColumn 4 u4)]"
    using generateBingoCard_columns by blast
  let ?u = "\<lambda>c::nat. if c = 0 then u0 else if c = 1 then u1 else if c = 2 then u2
                      else if c = 3 then u3 else u4"
  have nth: "fst (generateBingoCard us) ! c = fst (genColumn (int c) (?u c))" if "c < 5" for c
  proof -
    from that have "c = 0 \<or> c = 1 \<or> c = 2 \<or> c = 3 \<or> c = 4" by arith
    then show ?thesis by (auto simp: card)
  qed
  note p = genColumn_props
  have len: "\<forall>col < 5. length (fst (generateBingoCard us) ! col) = 5"
    using nth p by simp
  have free: "fst (generateBingoCard us) ! 2 ! 2 = FREE"
  proof -
    have "(2::nat) < 5" by simp
    from p [OF this, of u2]
    have "\<forall>r<5. if (2::nat) = 2 \<and> r = 2 then fst (genColumn (int 2) u2) ! r = FREE
               else (\<exists>n. fst (genColumn (int 2) u2) ! r = Number n
                       \<and> 15 * int 2 + 1 \<le> n \<and> n \<le> 15 * int 2 + 15)"
      by blast
    from this [rule_format, of 2] show ?thesis by (simp add: card)
  qed
  have cells: "\<exists>n. fst (generateBingoCard us) ! col ! row = Number n
            \<and> fst (declaredRange col) \<le> n \<and> n \<le> snd (declaredRange col)"
    if "col < 5" "row < 5" "\<not> (col = 2 \<and> row = 2)" for col row
  proof -
    from p [OF that(1), of "?u col"] that(2)
    have "if col = 2 \<and> row = 2 then fst (genColumn (int col) (?u col)) ! row = FREE
               else (\<exists>n. fst (genColumn (int col) (?u col)) ! row = Number n
                       \<and> 15 * int col + 1 \<le> n \<and> n \<le> 15 * int col + 15)"
      by blast
    then show ?thesis
      using that by (simp add: nth declaredRange_eq)
  qed
  have d: "distinct (numbersOf (fst (genColumn 0 u0)))"
    "distinct (numbersOf (fst (genColumn 1 u1)))"
    "distinct (numbersOf (fst (genColumn 2 u2)))"
    "distinct (numbersOf (fst (genColumn 3 u3)))"
    "distinct (numbersOf (fst (genColumn 4 u4)))"
    using p [of 0 u0] p [of 1 u1] p [of 2 u2] p [of 3 u3] p [of 4 u4] by simp_all
  have r: "set (numbersOf (fst (genColumn 0 u0))) \<subseteq> {1..15}"
    "set (numbersOf (fst (genColumn 1 u1))) \<subseteq> {16..30}"
    "set (numbersOf (fst (genColumn 2 u2))) \<subseteq> {31..45}"
    "set (numbersOf (fst (genColumn 3 u3))) \<subseteq> {46..60}"
    "set (numbersOf (fst (genColumn 4 u4))) \<subseteq> {61..75}"
    using p [of 0 u0] p [of 1 u1] p [of 2 u2] p [of 3 u3] p [of 4 u4] by simp_all
  have dist: "distinct (concat (map numbersOf (fst (generateBingoCard us))))"
    using d r by (simp add: card) fastforce
  show ?thesis using len free cells dist by (simp add: card)
qed

text \<open>With every sample 0 the card is the example card, and the theorem holds of it.\<close>

theorem generateBingoCard_valid_witness:
  "fst (generateBingoCard (sconst sampleZero)) = demoCard
   \<and> (1::nat) < 5 \<and> (3::nat) < 5 \<and> \<not> ((1::nat) = 2 \<and> (3::nat) = 2)
   \<and> demoCard ! 1 ! 3 = Number 19
   \<and> (\<exists>n. demoCard ! 1 ! 3 = Number n
        \<and> fst (declaredRange 1) \<le> n \<and> n \<le> snd (declaredRange 1))
   \<and> length (demoCard ! 1) = 5
   \<and> demoCard ! 2 ! 2 = FREE
   \<and> distinct (concat (map numbersOf demoCard))"
proof -
  have eq: "fst (generateBingoCard (sconst sampleZero)) = demoCard"
    by (simp add: generateBingoCard_zero)
  have cell: "demoCard ! 1 ! 3 = Number 19" by (simp add: demoCard_def)
  note valid = generateBingoCard_valid [of "sconst sampleZero", unfolded eq]
  from valid have "\<forall>col < 5. \<forall>row < 5. \<not> (col = 2 \<and> row = 2) \<longrightarrow>
         (\<exists>n. demoCard ! col ! row = Number n
            \<and> fst (declaredRange col) \<le> n \<and> n \<le> snd (declaredRange col))"
    by blast
  from this [rule_format, of 1 3]
  have range: "\<exists>n. demoCard ! 1 ! 3 = Number n
        \<and> fst (declaredRange 1) \<le> n \<and> n \<le> snd (declaredRange 1)"
    by simp
  from valid have len: "\<forall>col < 5. length (demoCard ! col) = 5" by blast
  from len [rule_format, of 1] have len1: "length (demoCard ! 1) = 5" by simp
  show ?thesis using eq cell range len1 valid by simp
qed

section \<open>joinGame\<close>

lemma onJoinGame_result:
  "onJoinGame s socketId rid playerName us =
     (let game0 = (case games s rid of None \<Rightarrow> newBingoGame rid | Some g \<Rightarrow> g);
          shown = (if playerName \<noteq> [] then playerName
                   else ''Player '' @ showNat (length (players game0) + 1));
          game = fst (addPlayer game0 socketId shown us)
      in Inr (s\<lparr>games := (games s)(rid \<mapsto> game),
                 socketRoomId := (socketRoomId s)(socketId \<mapsto> rid)\<rparr>,
              [SocketEmit socketId
                 (GameJoined (fst (generateBingoCard us)) shown (getState game)),
               IoTo rid (PlayerJoined shown (length (players game)))]))"
  by (simp add: onJoinGame_def Let_def addPlayer_player)

text \<open>
  Claim C10. When the socket is already a player of the room, joinGame replaces its entry
  in place: the keys of the \<open>players\<close> map and their order are as before, so the count is
  unchanged; the entry now holds the card just generated and an empty marked set; every
  other player is as before, and so is every other field of the game.
\<close>

theorem rejoin_replaces_in_place:
  assumes "games s rid = Some game"
    and "map_of (players game) socketId = Some old"
  shows "\<exists>s' out game'. onJoinGame s socketId rid playerName us = Inr (s', out)
       \<and> games s' rid = Some game'
       \<and> map fst (players game') = map fst (players game)
       \<and> length (players game') = length (players game)
       \<and> map_option card_p (map_of (players game') socketId) = Some (fst (generateBingoCard us))
       \<and> map_option markedCells (map_of (players game') socketId) = Some []
       \<and> map_option id_p (map_of (players game') socketId) = Some socketId
       \<and> map_option name_p (map_of (players game') socketId)
           = Some (if playerName \<noteq> [] then playerName
                   else ''Player '' @ showNat (length (players game) + 1))
       \<and> (\<forall>other. other \<noteq> socketId \<longrightarrow>
             map_of (players game') other = map_of (players game) other)
       \<and> game'\<lparr>players := players game\<rparr> = game
       \<and> out = [SocketEmit socketId
                   (GameJoined (fst (generateBingoCard us))
                      (if playerName \<noteq> [] then playerName
                       else ''Player '' @ showNat (length (players game) + 1))
                      (getState game')),
                 IoTo rid (PlayerJoined
                      (if playerName \<noteq> [] then playerName
                       else ''Player '' @ showNat (length (players game) + 1))
                      (length (players game)))]"
proof -
  let ?shown = "if playerName \<noteq> [] then playerName
                else ''Player '' @ showNat (length (players game) + 1)"
  let ?game' = "fst (addPlayer game socketId ?shown us)"
  let ?entry = "\<lparr>id_p = socketId, name_p = ?shown, card_p = fst (generateBingoCard us),
                 markedCells = []\<rparr>"
  have pl: "players ?game' = AList.update socketId ?entry (players game)"
    by (rule addPlayer_players)
  have keys: "map fst (players ?game') = map fst (players game)"
    using update_keys_present [OF assms(2)] by (simp add: pl)
  have len: "length (players ?game') = length (players game)"
    using arg_cong [OF keys, of length] by simp
  have self: "map_of (players ?game') socketId = Some ?entry"
    by (rule addPlayer_player)
  have others: "\<forall>other. other \<noteq> socketId \<longrightarrow>
      map_of (players ?game') other = map_of (players game) other"
    by (simp add: pl map_of_update_other)
  have frame: "?game'\<lparr>players := players game\<rparr> = game"
    by (rule addPlayer_frame)
  have run: "onJoinGame s socketId rid playerName us =
      Inr (s\<lparr>games := (games s)(rid \<mapsto> ?game'),
              socketRoomId := (socketRoomId s)(socketId \<mapsto> rid)\<rparr>,
           [SocketEmit socketId (GameJoined (fst (generateBingoCard us)) ?shown (getState ?game')),
            IoTo rid (PlayerJoined ?shown (length (players game)))])"
    using assms(1) len by (simp add: onJoinGame_result Let_def)
  show ?thesis
    unfolding run using keys len self others frame by simp
qed

text \<open>
  Socket \<open>s1\<close>, already in room \<open>r1\<close>, joins it again with no name: one player still, now
  named by position, with the card generated and nothing marked.
\<close>

theorem rejoin_replaces_in_place_witness:
  "games joinedServer ''r1'' = Some ((newBingoGame ''r1'')\<lparr>players := [(''s1'', demoPlayer [])]\<rparr>)
   \<and> map_of (players ((newBingoGame ''r1'')\<lparr>players := [(''s1'', demoPlayer [])]\<rparr>)) ''s1''
       = Some (demoPlayer [])
   \<and> (case onJoinGame joinedServer ''s1'' ''r1'' [] (sconst sampleZero) of
         Inl e \<Rightarrow> False
       | Inr (s', out) \<Rightarrow>
           map_option (\<lambda>g. players g) (games s' ''r1'')
             = Some [(''s1'', \<lparr>id_p = ''s1'', name_p = ''Player 2'', card_p = demoCard,
                               markedCells = []\<rparr>)])"
proof -
  have a: "games joinedServer ''r1''
      = Some ((newBingoGame ''r1'')\<lparr>players := [(''s1'', demoPlayer [])]\<rparr>)"
    by (simp add: joinedServer_eq)
  have b: "map_of (players ((newBingoGame ''r1'')\<lparr>players := [(''s1'', demoPlayer [])]\<rparr>)) ''s1''
       = Some (demoPlayer [])"
    by simp
  have c: "showNat (length (players ((newBingoGame ''r1'')\<lparr>players := [(''s1'', demoPlayer [])]\<rparr>)) + 1)
      = ''2''"
    by (simp add: showNat.simps [of "Suc (Suc 0)"])
  from rejoin_replaces_in_place [OF a b, of "[]" "sconst sampleZero"]
  obtain s' out game' where run: "onJoinGame joinedServer ''s1'' ''r1'' [] (sconst sampleZero)
        = Inr (s', out)"
    and room: "games s' ''r1'' = Some game'"
    and keys: "map fst (players game')
        = map fst (players ((newBingoGame ''r1'')\<lparr>players := [(''s1'', demoPlayer [])]\<rparr>))"
    and crd: "map_option card_p (map_of (players game') ''s1'')
        = Some (fst (generateBingoCard (sconst sampleZero)))"
    and mrk: "map_option markedCells (map_of (players game') ''s1'') = Some []"
    and ident: "map_option id_p (map_of (players game') ''s1'') = Some ''s1''"
    and nm: "map_option name_p (map_of (players game') ''s1'')
        = Some (if [] \<noteq> ([]::string) then []
                else ''Player '' @ showNat (length (players
                   ((newBingoGame ''r1'')\<lparr>players := [(''s1'', demoPlayer [])]\<rparr>)) + 1))"
    by blast
  from keys obtain p where p: "players game' = [(''s1'', p)]"
    by (cases "players game'") auto
  have "card_p p = demoCard" using crd by (simp add: p generateBingoCard_zero)
  moreover have "markedCells p = []" using mrk by (simp add: p)
  moreover have "id_p p = ''s1''" using ident by (simp add: p)
  moreover have "name_p p = ''Player 2''" using nm unfolding c by (simp add: p)
  ultimately
  have "p = \<lparr>id_p = ''s1'', name_p = ''Player 2'', card_p = demoCard, markedCells = []\<rparr>"
    by (cases p) simp
  then show ?thesis using a b run room p by simp
qed

section \<open>callNumber\<close>

lemma set_availableNumbers:
  "set (availableNumbers game) = {1..75} - set (calledNumbers game)"
  by (auto simp: availableNumbers_def)

lemma distinct_availableNumbers: "distinct (availableNumbers game)"
  by (simp add: availableNumbers_def)

lemma callNumber_exhausted:
  assumes "{1..75} \<subseteq> set (calledNumbers game)"
  shows "callNumber game u = (None, stopGame game)"
proof -
  have "set (availableNumbers game) = {}"
    using assms by (simp add: set_availableNumbers)
  then show ?thesis by (simp add: callNumber_def)
qed

lemma callNumber_draws:
  assumes "\<not> {1..75} \<subseteq> set (calledNumbers game)"
  shows "\<exists>n. n \<in> {1..75} \<and> n \<notin> set (calledNumbers game)
       \<and> callNumber game u =
           (Some n, game\<lparr>calledNumbers := calledNumbers game @ [n], currentNumber := Some n\<rparr>)"
proof -
  let ?av = "availableNumbers game"
  have "set ?av \<noteq> {}"
    using assms by (simp add: set_availableNumbers)
  then have pos: "0 < length ?av" by simp
  then have "randomIndex u (length ?av) < length ?av"
    by (rule randomIndex_less)
  then have "?av ! randomIndex u (length ?av) \<in> set ?av"
    by (rule nth_mem)
  then have "?av ! randomIndex u (length ?av) \<in> {1..75} - set (calledNumbers game)"
    by (simp only: set_availableNumbers)
  then show ?thesis
    using pos by (simp add: callNumber_def Let_def)
qed

lemma callNumber_Some_iff:
  "callNumber game u = (Some n, game') \<Longrightarrow>
     n \<in> {1..75} \<and> n \<notin> set (calledNumbers game)
     \<and> game' = game\<lparr>calledNumbers := calledNumbers game @ [n], currentNumber := Some n\<rparr>"
proof (cases "{1..75} \<subseteq> set (calledNumbers game)")
  case True
  assume "callNumber game u = (Some n, game')"
  then show ?thesis using callNumber_exhausted [OF True, of u] by simp
next
  case False
  assume run: "callNumber game u = (Some n, game')"
  from callNumber_draws [OF False, of u] obtain m where
    "m \<in> {1..75}" "m \<notin> set (calledNumbers game)"
    "callNumber game u =
       (Some m, game\<lparr>calledNumbers := calledNumbers game @ [m], currentNumber := Some m\<rparr>)"
    by blast
  then show ?thesis using run by simp
qed

lemma not_exhausted:
  assumes "distinct called" and "set called \<subseteq> {1..75::int}" and "length called < 75"
  shows "\<not> {1..75} \<subseteq> set called"
proof
  assume "{1..75} \<subseteq> set called"
  then have "card {1..75::int} \<le> card (set called)"
    by (intro card_mono) simp_all
  then show False
    using assms(1,3) by (simp add: distinct_card)
qed

lemma exhausted:
  assumes "distinct called" and "set called \<subseteq> {1..75::int}" and "length called = 75"
  shows "set called = {1..75}"
proof -
  have "card (set called) = card {1..75::int}"
    using assms(1,3) by (simp add: distinct_card)
  then show ?thesis
    using assms(2) by (intro card_subset_eq) simp_all
qed

lemma drawMany_props:
  assumes "distinct (calledNumbers game)" and "set (calledNumbers game) \<subseteq> {1..75}"
    and "length (calledNumbers game) + length us \<le> 75"
  shows "\<exists>drawn. fst (drawMany game us) = map Some drawn
       \<and> snd (drawMany game us) =
           game\<lparr>calledNumbers := calledNumbers game @ drawn,
                currentNumber := (if drawn = [] then currentNumber game else Some (last drawn))\<rparr>
       \<and> length drawn = length us
       \<and> distinct (calledNumbers game @ drawn)
       \<and> set (calledNumbers game @ drawn) \<subseteq> {1..75}"
  using assms
proof (induction us arbitrary: game)
  case Nil
  then show ?case by simp
next
  case (Cons u us)
  have "length (calledNumbers game) < 75" using Cons.prems(3) by simp
  from not_exhausted [OF Cons.prems(1,2) this]
  have "\<not> {1..75} \<subseteq> set (calledNumbers game)" .
  from callNumber_draws [OF this, of u] obtain n where
    n: "n \<in> {1..75}" "n \<notin> set (calledNumbers game)"
    and run: "callNumber game u =
       (Some n, game\<lparr>calledNumbers := calledNumbers game @ [n], currentNumber := Some n\<rparr>)"
    by blast
  let ?g = "game\<lparr>calledNumbers := calledNumbers game @ [n], currentNumber := Some n\<rparr>"
  have "distinct (calledNumbers ?g)" "set (calledNumbers ?g) \<subseteq> {1..75}"
    "length (calledNumbers ?g) + length us \<le> 75"
    using Cons.prems n by simp_all
  from Cons.IH [OF this] obtain drawn where
    d: "fst (drawMany ?g us) = map Some drawn"
      "snd (drawMany ?g us) =
         ?g\<lparr>calledNumbers := calledNumbers ?g @ drawn,
             currentNumber := (if drawn = [] then currentNumber ?g else Some (last drawn))\<rparr>"
      "length drawn = length us"
      "distinct (calledNumbers ?g @ drawn)"
      "set (calledNumbers ?g @ drawn) \<subseteq> {1..75}"
    by blast
  have "fst (drawMany game (u # us)) = map Some (n # drawn)"
    using d(1) by (simp add: run split_beta)
  moreover have "snd (drawMany game (u # us)) =
       game\<lparr>calledNumbers := calledNumbers game @ (n # drawn),
            currentNumber := (if n # drawn = [] then currentNumber game
                              else Some (last (n # drawn)))\<rparr>"
    using d(2) by (simp add: run split_beta)
  moreover have "length (n # drawn) = length (u # us)"
    using d(3) by simp
  moreover have "distinct (calledNumbers game @ (n # drawn))"
    using d(4) by simp
  moreover have "set (calledNumbers game @ (n # drawn)) \<subseteq> {1..75}"
    using d(5) by simp
  ultimately show ?case by blast
qed

lemma stopGame_callInterval: "callInterval (stopGame game) = None"
  by (simp add: stopGame_def)

lemma stopGame_frame: "(stopGame game)\<lparr>callInterval := callInterval game\<rparr> = game"
  by (simp add: stopGame_def)

text \<open>
  Claim C8. A draw that returns a number returns one of 1..75 that is not in the history,
  and appends it. From an empty history, any 75 draws in a row all return a number, the
  history then holds each of 1..75 once, and the next draw returns \<open>null\<close>, clears the
  interval and leaves the history as it is.
\<close>

theorem draws_distinct_then_exhausted:
  "(callNumber game u = (Some n, game') \<longrightarrow>
      n \<notin> set (calledNumbers game) \<and> n \<in> {1..75}
      \<and> calledNumbers game' = calledNumbers game @ [n] \<and> currentNumber game' = Some n)
   \<and> (calledNumbers game0 = [] \<and> length us = 75 \<longrightarrow>
      fst (drawMany game0 us) = map Some (calledNumbers (snd (drawMany game0 us)))
      \<and> length (calledNumbers (snd (drawMany game0 us))) = 75
      \<and> distinct (calledNumbers (snd (drawMany game0 us)))
      \<and> set (calledNumbers (snd (drawMany game0 us))) = {1..75}
      \<and> fst (callNumber (snd (drawMany game0 us)) u') = None
      \<and> callInterval (snd (callNumber (snd (drawMany game0 us)) u')) = None
      \<and> calledNumbers (snd (callNumber (snd (drawMany game0 us)) u'))
          = calledNumbers (snd (drawMany game0 us)))"
proof -
  have one: "n \<notin> set (calledNumbers game) \<and> n \<in> {1..75}
      \<and> calledNumbers game' = calledNumbers game @ [n] \<and> currentNumber game' = Some n"
    if "callNumber game u = (Some n, game')"
    using callNumber_Some_iff [OF that] by simp
  have many: "fst (drawMany game0 us) = map Some (calledNumbers (snd (drawMany game0 us)))
      \<and> length (calledNumbers (snd (drawMany game0 us))) = 75
      \<and> distinct (calledNumbers (snd (drawMany game0 us)))
      \<and> set (calledNumbers (snd (drawMany game0 us))) = {1..75}
      \<and> fst (callNumber (snd (drawMany game0 us)) u') = None
      \<and> callInterval (snd (callNumber (snd (drawMany game0 us)) u')) = None
      \<and> calledNumbers (snd (callNumber (snd (drawMany game0 us)) u'))
          = calledNumbers (snd (drawMany game0 us))"
    if empty: "calledNumbers game0 = []" and len: "length us = 75"
  proof -
    have "distinct (calledNumbers game0)" "set (calledNumbers game0) \<subseteq> {1..75}"
      "length (calledNumbers game0) + length us \<le> 75"
      using empty len by simp_all
    from drawMany_props [OF this] obtain drawn where
      d: "fst (drawMany game0 us) = map Some drawn"
        "snd (drawMany game0 us) =
           game0\<lparr>calledNumbers := calledNumbers game0 @ drawn,
                 currentNumber := (if drawn = [] then currentNumber game0
                                   else Some (last drawn))\<rparr>"
        "length drawn = length us"
        "distinct (calledNumbers game0 @ drawn)"
        "set (calledNumbers game0 @ drawn) \<subseteq> {1..75}"
      by blast
    let ?g = "snd (drawMany game0 us)"
    have called: "calledNumbers ?g = drawn"
      using d(2) empty by simp
    have dist: "distinct drawn" and sub: "set drawn \<subseteq> {1..75}" and l: "length drawn = 75"
      using d(3,4,5) empty len by simp_all
    have full: "set drawn = {1..75}"
      using dist sub l by (rule exhausted)
    then have "{1..75} \<subseteq> set (calledNumbers ?g)"
      by (simp add: called)
    then have stop: "callNumber ?g u' = (None, stopGame ?g)"
      by (rule callNumber_exhausted)
    have "calledNumbers (stopGame ?g) = calledNumbers ?g"
      by (simp add: stopGame_def)
    then show ?thesis
      using d(1) called dist l full stop by (simp add: stopGame_callInterval)
  qed
  show ?thesis using one many by blast
qed

lemma callNumber_zero_first:
  assumes "calledNumbers game = []"
  shows "callNumber game sampleZero =
     (Some 1, game\<lparr>calledNumbers := [1], currentNumber := Some 1\<rparr>)"
proof -
  have av: "availableNumbers game = [1..75]"
    using assms by (simp add: availableNumbers_def)
  have "[1..75] ! 0 = (1::int)"
    by (simp add: upto.simps)
  then show ?thesis
    using assms by (simp add: callNumber_def av randomIndex_zero Let_def)
qed

text \<open>
  On a new game: the first draw with sample 0 returns 1, which was not in the history;
  and after 75 draws with sample 0 the history is all of 1..75 and the next draw returns
  \<open>null\<close>.
\<close>

theorem draws_distinct_then_exhausted_witness:
  "callNumber (newBingoGame ''r1'') sampleZero =
     (Some 1, (newBingoGame ''r1'')\<lparr>calledNumbers := [1], currentNumber := Some 1\<rparr>)
   \<and> 1 \<notin> set (calledNumbers (newBingoGame ''r1''))
   \<and> calledNumbers (newBingoGame ''r1'') = []
   \<and> length (replicate 75 sampleZero) = 75
   \<and> set (calledNumbers (snd (drawMany (newBingoGame ''r1'') (replicate 75 sampleZero))))
       = {1..75}
   \<and> fst (callNumber (snd (drawMany (newBingoGame ''r1'') (replicate 75 sampleZero)))
            sampleZero) = None
   \<and> callInterval (snd (callNumber
         (snd (drawMany (newBingoGame ''r1'') (replicate 75 sampleZero))) sampleZero)) = None"
proof -
  have b: "calledNumbers (newBingoGame ''r1'') = []"
    by (simp add: newBingoGame_def)
  have a: "callNumber (newBingoGame ''r1'') sampleZero =
     (Some 1, (newBingoGame ''r1'')\<lparr>calledNumbers := [1], currentNumber := Some 1\<rparr>)"
    using b by (rule callNumber_zero_first)
  have c: "length (replicate 75 sampleZero) = 75"
    by simp
  note t = draws_distinct_then_exhausted
    [of "newBingoGame ''r1''" sampleZero 1
        "(newBingoGame ''r1'')\<lparr>calledNumbers := [1], currentNumber := Some 1\<rparr>"
        "newBingoGame ''r1''" "replicate 75 sampleZero" sampleZero]
  from t a have d: "1 \<notin> set (calledNumbers (newBingoGame ''r1''))"
    by blast
  from t b c have e:
    "set (calledNumbers (snd (drawMany (newBingoGame ''r1'') (replicate 75 sampleZero))))
       = {1..75}"
    "fst (callNumber (snd (drawMany (newBingoGame ''r1'') (replicate 75 sampleZero)))
            sampleZero) = None"
    "callInterval (snd (callNumber
         (snd (drawMany (newBingoGame ''r1'') (replicate 75 sampleZero))) sampleZero)) = None"
    by blast+
  show ?thesis using a b c d e by blast
qed

section \<open>The interval handle and the game state\<close>

lemma timerInv_new: "timerInv (newBingoGame rid)"
  by (simp add: timerInv_def newBingoGame_def)

lemma timerInv_players: "timerInv (game\<lparr>players := ps\<rparr>) = timerInv game"
  by (simp add: timerInv_def)

lemma timerInv_addPlayer:
  "timerInv game \<Longrightarrow> timerInv (fst (addPlayer game socketId shown us))"
  by (simp add: addPlayer_def split_beta timerInv_players)

lemma callNumber_cases:
  "({1..75} \<subseteq> set (calledNumbers game) \<and> callNumber game u = (None, stopGame game))
   \<or> (\<exists>n. n \<in> {1..75} \<and> n \<notin> set (calledNumbers game)
        \<and> callNumber game u =
            (Some n, game\<lparr>calledNumbers := calledNumbers game @ [n],
                          currentNumber := Some n\<rparr>))"
  using callNumber_exhausted [of game u] callNumber_draws [of game u] by blast

lemma timerInv_callNumber:
  assumes "timerInv game" and "callInterval game \<noteq> None"
  shows "timerInv (snd (callNumber game u))"
  using callNumber_cases [of game u] assms
  by (auto simp: timerInv_def stopGame_def)

lemma timerInv_startGame:
  assumes "timerInv game"
  shows "timerInv (startGame game u)"
proof (cases "gameState game = Waiting")
  case True
  let ?g = "game\<lparr>gameState := Playing, calledNumbers := [], winner := None,
                   callInterval := Some (Interval 5000)\<rparr>"
  have "timerInv ?g" by (simp add: timerInv_def)
  moreover have "callInterval ?g \<noteq> None" by simp
  ultimately have "timerInv (snd (callNumber ?g u))" by (rule timerInv_callNumber)
  then show ?thesis using True by (simp add: startGame_def)
next
  case False
  then show ?thesis using assms by (simp add: startGame_def)
qed

lemma timerInv_checkWin:
  "timerInv game \<Longrightarrow> timerInv (snd (checkWin game socketId))"
  by (simp add: checkWin_def Let_def timerInv_players split: option.splits)

lemma timerInv_won:
  "timerInv (stopGame (game\<lparr>gameState := Finished, winner := w\<rparr>))"
  by (simp add: timerInv_def stopGame_def)

lemma timerInv_reset:
  "timerInv ((stopGame game)\<lparr>calledNumbers := [], currentNumber := None,
                              gameState := Waiting, winner := None, players := ps\<rparr>)"
  by (simp add: timerInv_def stopGame_def)

lemma removePlayer_nonempty:
  "length (players (removePlayer game socketId)) \<noteq> 0 \<Longrightarrow>
   removePlayer game socketId = game\<lparr>players := AList.delete socketId (players game)\<rparr>"
  by (auto simp: removePlayer_def Let_def stopGame_def)

lemma rooms_update:
  assumes "\<forall>rid game. games s rid = Some game \<longrightarrow> P game" and "P game'"
  shows "\<forall>rid' game. ((games s)(rid \<mapsto> game')) rid' = Some game \<longrightarrow> P game"
  using assms by simp

lemma rooms_delete:
  assumes "\<forall>rid game. games s rid = Some game \<longrightarrow> P game"
  shows "\<forall>rid' game. ((games s)(rid := None)) rid' = Some game \<longrightarrow> P game"
  using assms by simp

lemma stopGame_eq: "stopGame game = game\<lparr>callInterval := None\<rparr>"
  by (cases "callInterval game") (simp_all add: stopGame_def)

lemma onClaimBingo_playing:
  assumes "resolveGame s socketId = Some (rid, game)"
    and "gameState game = Playing"
    and "map_of (players game) socketId = Some p"
  shows "onClaimBingo s socketId =
     (let p1 = p\<lparr>markedCells := setAdd freeIndex (markedCells p)\<rparr>;
          game1 = game\<lparr>players := AList.update socketId p1 (players game)\<rparr>
      in if checkLines (markedCells p1)
         then Inr (s\<lparr>games := (games s)(rid \<mapsto>
                      game1\<lparr>gameState := Finished, winner := Some (name_p p),
                            callInterval := None\<rparr>)\<rparr>,
                   [IoTo rid (GameWon (name_p p) (card_p p) (markedCells p1))])
         else Inr (s\<lparr>games := (games s)(rid \<mapsto> game1)\<rparr>,
                   [SocketEmit socketId (InvalidBingo ''Not a valid Bingo!'')]))"
  using assms
  by (simp add: onClaimBingo_def checkWin_def Let_def map_of_update_same stopGame_eq)

lemma onClaimBingo_noop:
  assumes "resolveGame s socketId = None
     \<or> (\<exists>rid game. resolveGame s socketId = Some (rid, game)
          \<and> (gameState game \<noteq> Playing \<or> map_of (players game) socketId = None))"
  shows "onClaimBingo s socketId = Inr (s, [])"
  using assms by (auto simp: onClaimBingo_def)

lemma step_timerInv:
  assumes inv: "\<forall>rid game. games s rid = Some game \<longrightarrow> timerInv game"
    and run: "step s us ev = Inr (s', out)"
  shows "\<forall>rid game. games s' rid = Some game \<longrightarrow> timerInv game"
proof (cases ev)
  case (JoinGame socketId rid playerName)
  let ?game0 = "case games s rid of None \<Rightarrow> newBingoGame rid | Some g \<Rightarrow> g"
  let ?shown = "if playerName \<noteq> [] then playerName
                else ''Player '' @ showNat (length (players ?game0) + 1)"
  have "timerInv ?game0"
    using inv by (simp add: timerInv_new split: option.splits)
  then have new: "timerInv (fst (addPlayer ?game0 socketId ?shown us))"
    by (rule timerInv_addPlayer)
  have "games s' = (games s)(rid \<mapsto> fst (addPlayer ?game0 socketId ?shown us))"
    using run JoinGame by (auto simp: onJoinGame_result Let_def)
  then show ?thesis using rooms_update [OF inv new] by simp
next
  case (StartGame socketId)
  show ?thesis
  proof (cases "resolveGame s socketId")
    case None
    then show ?thesis using inv run StartGame by (simp add: onStartGame_def)
  next
    case (Some r)
    obtain rid game where r: "r = (rid, game)" by (cases r)
    have "games s rid = Some game" using Some r by (simp add: resolveGame_Some)
    then have new: "timerInv (startGame game (shd us))"
      using inv by (simp add: timerInv_startGame)
    have "games s' = (games s)(rid \<mapsto> startGame game (shd us))"
      using run StartGame Some r by (auto simp: onStartGame_def Let_def)
    then show ?thesis using rooms_update [OF inv new] by simp
  qed
next
  case (MarkCell socketId row col)
  show ?thesis
  proof (cases "resolveGame s socketId")
    case None
    then show ?thesis using inv run MarkCell by (simp add: onMarkCell_def)
  next
    case (Some r)
    obtain rid game where r: "r = (rid, game)" by (cases r)
    have g: "games s rid = Some game" using Some r by (simp add: resolveGame_Some)
    then have new: "timerInv (game\<lparr>players := ps\<rparr>)" for ps
      using inv by (simp add: timerInv_players)
    have "games s' = games s \<or> (\<exists>ps. games s' = (games s)(rid \<mapsto> game\<lparr>players := ps\<rparr>))"
      using run MarkCell Some r
      by (auto simp: onMarkCell_def Let_def split: option.splits if_splits)
    then show ?thesis using rooms_update [OF inv new] inv by auto
  qed
next
  case (ClaimBingo socketId)
  show ?thesis
  proof (cases "resolveGame s socketId")
    case None
    then show ?thesis using inv run ClaimBingo by (simp add: onClaimBingo_noop)
  next
    case (Some r)
    obtain rid game where r: "r = (rid, game)" by (cases r)
    have g: "games s rid = Some game" using Some r by (simp add: resolveGame_Some)
    show ?thesis
    proof (cases "gameState game = Playing \<and> map_of (players game) socketId \<noteq> None")
      case False
      then have "onClaimBingo s socketId = Inr (s, [])"
        using Some r by (intro onClaimBingo_noop) auto
      then show ?thesis using inv run ClaimBingo by simp
    next
      case True
      then obtain p where p: "map_of (players game) socketId = Some p" by blast
      let ?p1 = "p\<lparr>markedCells := setAdd freeIndex (markedCells p)\<rparr>"
      let ?game1 = "game\<lparr>players := AList.update socketId ?p1 (players game)\<rparr>"
      have new1: "timerInv ?game1"
        using g inv by (simp add: timerInv_players)
      have new2: "timerInv (?game1\<lparr>gameState := Finished, winner := Some (name_p p),
                            callInterval := None\<rparr>)"
        by (simp add: timerInv_def)
      have "games s' = (games s)(rid \<mapsto> ?game1)
          \<or> games s' = (games s)(rid \<mapsto> ?game1\<lparr>gameState := Finished,
                winner := Some (name_p p), callInterval := None\<rparr>)"
        using run ClaimBingo onClaimBingo_playing [OF Some [unfolded r] conjunct1 [OF True] p]
        by (auto simp: Let_def split: if_splits)
      then show ?thesis
        using rooms_update [OF inv new1] rooms_update [OF inv new2] by auto
    qed
  qed
next
  case (NewGame socketId)
  show ?thesis
  proof (cases "resolveGame s socketId")
    case None
    then show ?thesis using inv run NewGame by (simp add: onNewGame_def)
  next
    case (Some r)
    obtain rid game where r: "r = (rid, game)" by (cases r)
    have "\<exists>ps. games s' = (games s)(rid \<mapsto>
        (stopGame game)\<lparr>calledNumbers := [], currentNumber := None,
                          gameState := Waiting, winner := None, players := ps\<rparr>)"
      using run NewGame Some r by (auto simp: onNewGame_def Let_def)
    then show ?thesis using rooms_update [OF inv timerInv_reset] by auto
  qed
next
  case (Disconnect socketId)
  show ?thesis
  proof (cases "resolveGame s socketId")
    case None
    then show ?thesis using inv run Disconnect by (auto simp: onDisconnect_def)
  next
    case (Some r)
    obtain rid game where r: "r = (rid, game)" by (cases r)
    have g: "games s rid = Some game" using Some r by (simp add: resolveGame_Some)
    show ?thesis
    proof (cases "length (players (removePlayer game socketId)) = 0")
      case True
      then have "games s' = (games s)(rid := None)"
        using run Disconnect Some r by (auto simp: onDisconnect_def Let_def)
      then show ?thesis using rooms_delete [OF inv] by simp
    next
      case False
      have new: "timerInv (removePlayer game socketId)"
        using removePlayer_nonempty [OF False] g inv by (simp add: timerInv_players)
      have "games s' = (games s)(rid \<mapsto> removePlayer game socketId)"
        using False run Disconnect Some r by (auto simp: onDisconnect_def Let_def)
      then show ?thesis using rooms_update [OF inv new] by simp
    qed
  qed
next
  case (Tick rid)
  show ?thesis
  proof (cases "games s rid")
    case None
    then show ?thesis using inv run Tick by (simp add: onTick_def)
  next
    case (Some game)
    show ?thesis
    proof (cases "callInterval game = None")
      case True
      then show ?thesis using inv run Tick Some by (simp add: onTick_def)
    next
      case False
      have new: "timerInv (snd (callNumber game (shd us)))"
        using inv Some False by (simp add: timerInv_callNumber)
      have "games s' = (games s)(rid \<mapsto> snd (callNumber game (shd us)))"
        using False run Tick Some by (auto simp: onTick_def)
      then show ?thesis using rooms_update [OF inv new] by simp
    qed
  qed
qed

lemma reachable_timerInv:
  "reachable s \<Longrightarrow> \<forall>rid game. games s rid = Some game \<longrightarrow> timerInv game"
proof (induction rule: reachable.induct)
  case reachable_init
  then show ?case by (simp add: initialServer_def)
next
  case (reachable_step s us ev s' out)
  then show ?case using step_timerInv by blast
qed

subsection \<open>Runs, and the run that exhausts the numbers\<close>

lemma run_append:
  "run s (evs @ evs') = (case run s evs of Inl e \<Rightarrow> Inl e | Inr s' \<Rightarrow> run s' evs')"
  by (induction evs arbitrary: s) (auto split: sum.splits)

lemma run_reachable: "reachable s \<Longrightarrow> run s evs = Inr s' \<Longrightarrow> reachable s'"
proof (induction evs arbitrary: s)
  case Nil
  then show ?case by simp
next
  case (Cons a evs)
  obtain us ev where a: "a = (us, ev)" by (cases a)
  from Cons.prems(2) obtain s1 out where
    st: "step s us ev = Inr (s1, out)" and rest: "run s1 evs = Inr s'"
    by (auto simp: a split: sum.splits)
  have "reachable s1" using Cons.prems(1) st by (rule reachable_step)
  then show ?case using rest by (rule Cons.IH)
qed

lemma startedServer_eq: "startedServer = demoServer [1] []"
proof -
  let ?g = "(newBingoGame ''r1'')\<lparr>players := [(''s1'', demoPlayer [])]\<rparr>"
  have res: "resolveGame joinedServer ''s1'' = Some (''r1'', ?g)"
    by (simp add: joinedServer_eq resolveGame_def)
  have "startGame ?g sampleZero = demoGame [1] []"
    by (simp add: startGame_def callNumber_zero_first) (simp add: newBingoGame_def demoGame_def)
  then show ?thesis
    by (simp add: startedServer_def onStartGame_def res Let_def)
      (simp add: joinedServer_eq demoServer_def)
qed

lemma startedServer_reachable: "reachable startedServer"
proof -
  have "\<exists>out. step joinedServer (sconst sampleZero) (StartGame ''s1'') = Inr (startedServer, out)"
    by (simp add: startedServer_def onStartGame_def Let_def split: option.splits)
  then show ?thesis using joinedServer_reachable reachable_step by blast
qed

lemma onTick_active:
  "games s rid = Some game \<Longrightarrow> callInterval game = Some t \<Longrightarrow>
   onTick s rid u = Inr (s\<lparr>games := (games s)(rid \<mapsto> snd (callNumber game u))\<rparr>, [])"
  by (simp add: onTick_def)

lemma run_ticks:
  assumes "games s rid = Some game" and "callInterval game \<noteq> None"
    and "distinct (calledNumbers game)" and "set (calledNumbers game) \<subseteq> {1..75}"
    and "length (calledNumbers game) + k \<le> 75"
  shows "run s (replicate k (us, Tick rid)) =
     Inr (s\<lparr>games := (games s)(rid \<mapsto> snd (drawMany game (replicate k (shd us))))\<rparr>)"
  using assms
proof (induction k arbitrary: s game)
  case 0
  then show ?case by (simp add: map_upd_triv)
next
  case (Suc k)
  have "length (calledNumbers game) < 75" using Suc.prems(5) by simp
  from not_exhausted [OF Suc.prems(3,4) this]
  have "\<not> {1..75} \<subseteq> set (calledNumbers game)" .
  from callNumber_draws [OF this, of "shd us"] obtain n where
    n: "n \<in> {1..75}" "n \<notin> set (calledNumbers game)"
    and draw: "callNumber game (shd us) =
       (Some n, game\<lparr>calledNumbers := calledNumbers game @ [n], currentNumber := Some n\<rparr>)"
    by blast
  let ?g = "game\<lparr>calledNumbers := calledNumbers game @ [n], currentNumber := Some n\<rparr>"
  let ?s = "s\<lparr>games := (games s)(rid \<mapsto> ?g)\<rparr>"
  obtain t where t: "callInterval game = Some t"
    using Suc.prems(2) by blast
  have tick: "onTick s rid (shd us) = Inr (?s, [])"
    using onTick_active [OF Suc.prems(1) t, of "shd us"] by (simp add: draw)
  have "games ?s rid = Some ?g" "callInterval ?g \<noteq> None" "distinct (calledNumbers ?g)"
    "set (calledNumbers ?g) \<subseteq> {1..75}" "length (calledNumbers ?g) + k \<le> 75"
    using Suc.prems n by simp_all
  from Suc.IH [OF this]
  have ih: "run ?s (replicate k (us, Tick rid)) =
     Inr (?s\<lparr>games := (games ?s)(rid \<mapsto> snd (drawMany ?g (replicate k (shd us))))\<rparr>)" .
  have many: "snd (drawMany game (replicate (Suc k) (shd us)))
      = snd (drawMany ?g (replicate k (shd us)))"
    by (simp add: draw split_beta)
  have "run s (replicate (Suc k) (us, Tick rid)) = run ?s (replicate k (us, Tick rid))"
    by (simp add: tick)
  also have "\<dots> = Inr (?s\<lparr>games := (games ?s)(rid \<mapsto>
      snd (drawMany ?g (replicate k (shd us))))\<rparr>)"
    by (rule ih)
  also have "\<dots> = Inr (s\<lparr>games := (games s)(rid \<mapsto>
      snd (drawMany game (replicate (Suc k) (shd us))))\<rparr>)"
    by (simp only: many) simp
  finally show ?case .
qed

lemma onTick_exhausted:
  assumes "games s rid = Some game" and "callInterval game \<noteq> None"
    and "{1..75} \<subseteq> set (calledNumbers game)"
  shows "onTick s rid u = Inr (s\<lparr>games := (games s)(rid \<mapsto> game\<lparr>callInterval := None\<rparr>)\<rparr>, [])"
proof -
  obtain t where t: "callInterval game = Some t"
    using assms(2) by blast
  have "callNumber game u = (None, stopGame game)"
    using assms(3) by (rule callNumber_exhausted)
  then show ?thesis
    using onTick_active [OF assms(1) t, of u] by (simp add: stopGame_eq)
qed

lemma onTick_draws:
  assumes "games s rid = Some game" and "callInterval game \<noteq> None"
    and "\<not> {1..75} \<subseteq> set (calledNumbers game)"
  shows "\<exists>n. n \<in> {1..75} \<and> n \<notin> set (calledNumbers game)
     \<and> onTick s rid u =
         Inr (s\<lparr>games := (games s)(rid \<mapsto>
                game\<lparr>calledNumbers := calledNumbers game @ [n],
                     currentNumber := Some n\<rparr>)\<rparr>, [])"
proof -
  obtain t where t: "callInterval game = Some t"
    using assms(2) by blast
  from callNumber_draws [OF assms(3), of u] obtain n where
    n: "n \<in> {1..75}" "n \<notin> set (calledNumbers game)"
    and draw: "callNumber game u =
       (Some n, game\<lparr>calledNumbers := calledNumbers game @ [n], currentNumber := Some n\<rparr>)"
    by blast
  have "onTick s rid u =
         Inr (s\<lparr>games := (games s)(rid \<mapsto>
                game\<lparr>calledNumbers := calledNumbers game @ [n],
                     currentNumber := Some n\<rparr>)\<rparr>, [])"
    using onTick_active [OF assms(1) t, of u] by (simp add: draw)
  then show ?thesis using n by blast
qed

lemma onTick_idle:
  assumes "games s rid = Some game" and "callInterval game = None"
  shows "onTick s rid u = Inr (s, [])"
  using assms by (simp add: onTick_def)

lemma fullServer_room:
  "run startedServer (replicate 74 (sconst sampleZero, Tick ''r1'')) = Inr fullServer
   \<and> (\<exists>game. games fullServer ''r1'' = Some game \<and> gameState game = Playing
     \<and> callInterval game = Some (Interval 5000) \<and> set (calledNumbers game) = {1..75})"
proof -
  let ?g = "demoGame [1] []"
  let ?us = "sconst sampleZero"
  let ?g74 = "snd (drawMany ?g (replicate 74 sampleZero))"
  let ?s74 = "startedServer\<lparr>games := (games startedServer)(''r1'' \<mapsto> ?g74)\<rparr>"
  have pre: "games startedServer ''r1'' = Some ?g" "callInterval ?g \<noteq> None"
    "distinct (calledNumbers ?g)" "set (calledNumbers ?g) \<subseteq> {1..75}"
    "length (calledNumbers ?g) + 74 \<le> 75"
    by (simp_all add: startedServer_eq demoServer_def demoGame_def)
  have r74: "run startedServer (replicate 74 (?us, Tick ''r1'')) = Inr ?s74"
    using run_ticks [OF pre, of ?us] by simp
  then have full: "fullServer = ?s74"
    by (simp add: fullServer_def)
  have "length (calledNumbers ?g) + length (replicate 74 sampleZero) \<le> 75"
    using pre(5) by simp
  from drawMany_props [OF pre(3,4) this] obtain drawn where
    d: "?g74 = ?g\<lparr>calledNumbers := calledNumbers ?g @ drawn,
                   currentNumber := (if drawn = [] then currentNumber ?g
                                     else Some (last drawn))\<rparr>"
      "length drawn = length (replicate 74 sampleZero)"
      "distinct (calledNumbers ?g @ drawn)"
      "set (calledNumbers ?g @ drawn) \<subseteq> {1..75}"
    by blast
  have called: "calledNumbers ?g74 = calledNumbers ?g @ drawn"
    by (subst d(1)) simp
  have state: "gameState ?g74 = Playing" "callInterval ?g74 = Some (Interval 5000)"
    by (subst d(1), simp add: demoGame_def)+
  have "length (calledNumbers ?g @ drawn) = 75"
    using d(2) by (simp add: demoGame_def)
  from exhausted [OF d(3,4) this]
  have all: "set (calledNumbers ?g74) = {1..75}"
    by (simp only: called)
  have "run startedServer (replicate 74 (?us, Tick ''r1'')) = Inr fullServer"
    by (simp only: r74 full)
  moreover have "games fullServer ''r1'' = Some ?g74"
    by (simp add: full)
  ultimately show ?thesis using state all by blast
qed

lemma fullServer_reachable: "reachable fullServer"
  using run_reachable [OF startedServer_reachable conjunct1 [OF fullServer_room]] .

lemma exhaustedServer_room:
  "run startedServer (replicate 75 (sconst sampleZero, Tick ''r1'')) = Inr exhaustedServer
   \<and> (\<exists>game. games exhaustedServer ''r1'' = Some game \<and> gameState game = Playing
     \<and> callInterval game = None \<and> set (calledNumbers game) = {1..75})"
proof -
  let ?us = "sconst sampleZero"
  from fullServer_room obtain g where
    r74: "run startedServer (replicate 74 (?us, Tick ''r1'')) = Inr fullServer"
    and g: "games fullServer ''r1'' = Some g" "gameState g = Playing"
      "callInterval g = Some (Interval 5000)" "set (calledNumbers g) = {1..75}"
    by blast
  let ?s75 = "fullServer\<lparr>games := (games fullServer)(''r1'' \<mapsto> g\<lparr>callInterval := None\<rparr>)\<rparr>"
  have "callInterval g \<noteq> None" "{1..75} \<subseteq> set (calledNumbers g)"
    using g(3,4) by simp_all
  from onTick_exhausted [OF g(1) this, of sampleZero]
  have tick: "step fullServer ?us (Tick ''r1'') = Inr (?s75, [])"
    by simp
  have "replicate (Suc 74) (?us, Tick ''r1'')
      = replicate 74 (?us, Tick ''r1'') @ [(?us, Tick ''r1'')]"
    by (simp only: replicate_append_same replicate_Suc)
  moreover have "Suc 74 = 75" by simp
  ultimately
  have "replicate 75 (?us, Tick ''r1'') = replicate 74 (?us, Tick ''r1'') @ [(?us, Tick ''r1'')]"
    by (simp only:)
  then have r75: "run startedServer (replicate 75 (?us, Tick ''r1'')) = Inr ?s75"
    by (simp only: run_append r74 sum.case run.simps tick prod.case)
  then have ex: "exhaustedServer = ?s75"
    by (simp add: exhaustedServer_def)
  have "run startedServer (replicate 75 (?us, Tick ''r1'')) = Inr exhaustedServer"
    by (simp only: r75 ex)
  moreover have "games exhaustedServer ''r1'' = Some (g\<lparr>callInterval := None\<rparr>)"
    by (simp add: ex)
  moreover have "gameState (g\<lparr>callInterval := None\<rparr>) = Playing"
    "callInterval (g\<lparr>callInterval := None\<rparr>) = None"
    "set (calledNumbers (g\<lparr>callInterval := None\<rparr>)) = {1..75}"
    using g(2,4) by simp_all
  ultimately show ?thesis by blast
qed

lemma exhaustedServer_reachable: "reachable exhaustedServer"
  using run_reachable [OF startedServer_reachable conjunct1 [OF exhaustedServer_room]] .

text \<open>
  Claim C5, as the code has it. In every state the process reaches, and for every game of
  the map: while the interval handle is set the game is playing; and a game that is
  playing has its handle set unless it has called all of 1..75. Both hold again after any
  further event (startGame, newGame, a winning claimBingo, a tick of the interval and
  every other). The tick of an interval that finds all of 1..75 called clears the handle
  and changes nothing else, so the game stays playing; a tick that finds a number left
  appends it and keeps the handle; without a handle the callback does not run.
\<close>

theorem timer_follows_game_state:
  assumes "reachable s" and "games s rid = Some game"
  shows "(callInterval game \<noteq> None \<longrightarrow> gameState game = Playing)
       \<and> (gameState game = Playing \<longrightarrow>
            callInterval game \<noteq> None \<or> {1..75} \<subseteq> set (calledNumbers game))
       \<and> (callInterval game \<noteq> None \<and> {1..75} \<subseteq> set (calledNumbers game) \<longrightarrow>
            step s us (Tick rid) =
              Inr (s\<lparr>games := (games s)(rid \<mapsto> game\<lparr>callInterval := None\<rparr>)\<rparr>, [])
            \<and> gameState (game\<lparr>callInterval := None\<rparr>) = Playing)
       \<and> (callInterval game \<noteq> None \<and> \<not> {1..75} \<subseteq> set (calledNumbers game) \<longrightarrow>
            (\<exists>n. n \<in> {1..75} \<and> n \<notin> set (calledNumbers game)
               \<and> step s us (Tick rid) =
                   Inr (s\<lparr>games := (games s)(rid \<mapsto>
                          game\<lparr>calledNumbers := calledNumbers game @ [n],
                               currentNumber := Some n\<rparr>)\<rparr>, [])))
       \<and> (callInterval game = None \<longrightarrow> step s us (Tick rid) = Inr (s, []))
       \<and> (\<forall>ev us' s' out rid' game'.
             step s us' ev = Inr (s', out) \<and> games s' rid' = Some game' \<longrightarrow>
               (callInterval game' \<noteq> None \<longrightarrow> gameState game' = Playing)
               \<and> (gameState game' = Playing \<longrightarrow>
                    callInterval game' \<noteq> None \<or> {1..75} \<subseteq> set (calledNumbers game')))"
proof -
  from reachable_timerInv [OF assms(1)] assms(2) have "timerInv game" by blast
  then have inv: "callInterval game \<noteq> None \<longrightarrow> gameState game = Playing"
    "gameState game = Playing \<longrightarrow>
       callInterval game \<noteq> None \<or> {1..75} \<subseteq> set (calledNumbers game)"
    unfolding timerInv_def by meson+
  have stop: "step s us (Tick rid) =
        Inr (s\<lparr>games := (games s)(rid \<mapsto> game\<lparr>callInterval := None\<rparr>)\<rparr>, [])
      \<and> gameState (game\<lparr>callInterval := None\<rparr>) = Playing"
    if "callInterval game \<noteq> None" "{1..75} \<subseteq> set (calledNumbers game)"
    using onTick_exhausted [OF assms(2) that, of "shd us"] inv(1) that(1) by simp
  have draw: "\<exists>n. n \<in> {1..75} \<and> n \<notin> set (calledNumbers game)
               \<and> step s us (Tick rid) =
                   Inr (s\<lparr>games := (games s)(rid \<mapsto>
                          game\<lparr>calledNumbers := calledNumbers game @ [n],
                               currentNumber := Some n\<rparr>)\<rparr>, [])"
    if "callInterval game \<noteq> None" "\<not> {1..75} \<subseteq> set (calledNumbers game)"
    using onTick_draws [OF assms(2) that, of "shd us"] by simp
  have idle: "step s us (Tick rid) = Inr (s, [])" if "callInterval game = None"
    using onTick_idle [OF assms(2) that, of "shd us"] by simp
  have next_state: "(callInterval game' \<noteq> None \<longrightarrow> gameState game' = Playing)
      \<and> (gameState game' = Playing \<longrightarrow>
           callInterval game' \<noteq> None \<or> {1..75} \<subseteq> set (calledNumbers game'))"
    if "step s us' ev = Inr (s', out)" "games s' rid' = Some game'"
    for ev us' s' out rid' game'
  proof -
    have "reachable s'" using assms(1) that(1) by (rule reachable_step)
    from reachable_timerInv [OF this] that(2) have "timerInv game'" by blast
    then show ?thesis unfolding timerInv_def by meson
  qed
  show ?thesis
    using inv stop draw idle next_state by blast
qed

text \<open>
  After the game of room \<open>r1\<close> is started the handle is set and the game is playing.
  After 74 ticks more the game has called all of 1..75 and the handle is still set; the
  next tick clears the handle and the game is still playing.
\<close>

theorem timer_follows_game_state_witness:
  "reachable startedServer
   \<and> games startedServer ''r1'' = Some (demoGame [1] [])
   \<and> callInterval (demoGame [1] []) \<noteq> None
   \<and> gameState (demoGame [1] []) = Playing
   \<and> reachable fullServer
   \<and> roomState fullServer ''r1'' = Some Playing
   \<and> roomTimer fullServer ''r1'' = Some (Some (Interval 5000))
   \<and> map_option set (map_option calledNumbers (games fullServer ''r1'')) = Some {1..75}
   \<and> roomState
        (case step fullServer (sconst sampleZero) (Tick ''r1'') of
           Inl e \<Rightarrow> initialServer | Inr r \<Rightarrow> fst r) ''r1'' = Some Playing
   \<and> roomTimer
        (case step fullServer (sconst sampleZero) (Tick ''r1'') of
           Inl e \<Rightarrow> initialServer | Inr r \<Rightarrow> fst r) ''r1'' = Some None"
proof -
  have a: "games startedServer ''r1'' = Some (demoGame [1] [])"
    by (simp add: startedServer_eq demoServer_def)
  have b: "callInterval (demoGame [1] []) \<noteq> None"
    by (simp add: demoGame_def)
  from timer_follows_game_state [OF startedServer_reachable a] b
  have c: "gameState (demoGame [1] []) = Playing" by blast
  from fullServer_room obtain g where
    g: "games fullServer ''r1'' = Some g" "gameState g = Playing"
      "callInterval g = Some (Interval 5000)" "set (calledNumbers g) = {1..75}"
    by blast
  have h: "callInterval g \<noteq> None" "{1..75} \<subseteq> set (calledNumbers g)"
    using g(3,4) by simp_all
  from timer_follows_game_state [OF fullServer_reachable g(1), of "sconst sampleZero"] h
  have tick: "step fullServer (sconst sampleZero) (Tick ''r1'') =
      Inr (fullServer\<lparr>games := (games fullServer)(''r1'' \<mapsto> g\<lparr>callInterval := None\<rparr>)\<rparr>, [])"
    and still: "gameState (g\<lparr>callInterval := None\<rparr>) = Playing"
    by blast+
  have d: "roomState fullServer ''r1'' = Some Playing"
    "roomTimer fullServer ''r1'' = Some (Some (Interval 5000))"
    "map_option set (map_option calledNumbers (games fullServer ''r1'')) = Some {1..75}"
    using g by (simp_all add: roomState_def roomTimer_def)
  have e: "roomState
        (case step fullServer (sconst sampleZero) (Tick ''r1'') of
           Inl e \<Rightarrow> initialServer | Inr r \<Rightarrow> fst r) ''r1'' = Some Playing"
    "roomTimer
        (case step fullServer (sconst sampleZero) (Tick ''r1'') of
           Inl e \<Rightarrow> initialServer | Inr r \<Rightarrow> fst r) ''r1'' = Some None"
    using still by (simp_all only: tick sum.case fst_conv roomState_def roomTimer_def)
      (simp_all)
  show ?thesis
    using startedServer_reachable a b c fullServer_reachable d e by blast
qed

text \<open>
  Claim C5 as it is worded fails: after the game of room \<open>r1\<close> is started and its interval
  has fired 75 times, the process is in a state where the game is playing and the handle
  is not set.
\<close>

theorem playing_without_timer_counterexample:
  "reachable exhaustedServer
   \<and> roomState exhaustedServer ''r1'' = Some Playing
   \<and> roomTimer exhaustedServer ''r1'' = Some None"
  using exhaustedServer_reachable exhaustedServer_room
  by (auto simp: roomState_def roomTimer_def)

section \<open>claimBingo\<close>







subsection \<open>A finished game stays finished until it is reset\<close>

lemma startGame_not_waiting: "gameState game \<noteq> Waiting \<Longrightarrow> startGame game u = game"
  by (simp add: startGame_def)

lemma onlyPlayersDiffer_refl: "onlyPlayersDiffer game game"
  by (simp add: onlyPlayersDiffer_def)

lemma onlyPlayersDiffer_players: "onlyPlayersDiffer game (game\<lparr>players := ps\<rparr>)"
  by (simp add: onlyPlayersDiffer_def)

lemma onlyPlayersDiffer_trans:
  assumes "onlyPlayersDiffer g1 g2" and "onlyPlayersDiffer g2 g3"
  shows "onlyPlayersDiffer g1 g3"
proof -
  have "g3\<lparr>players := players g1\<rparr> = (g3\<lparr>players := players g2\<rparr>)\<lparr>players := players g1\<rparr>"
    by simp
  also have "\<dots> = g2\<lparr>players := players g1\<rparr>"
    using assms(2) by (simp only: onlyPlayersDiffer_def)
  also have "\<dots> = g1"
    using assms(1) by (simp only: onlyPlayersDiffer_def)
  finally show ?thesis by (simp only: onlyPlayersDiffer_def)
qed

lemma onlyPlayersDiffer_fields:
  assumes "onlyPlayersDiffer game game'"
  shows "roomId game' = roomId game" "calledNumbers game' = calledNumbers game"
    "currentNumber game' = currentNumber game" "gameState game' = gameState game"
    "winner game' = winner game" "callInterval game' = callInterval game"
proof -
  have eq: "game'\<lparr>players := players game\<rparr> = game"
    using assms by (simp only: onlyPlayersDiffer_def)
  show "roomId game' = roomId game" using arg_cong [OF eq, of roomId] by simp
  show "calledNumbers game' = calledNumbers game" using arg_cong [OF eq, of calledNumbers] by simp
  show "currentNumber game' = currentNumber game" using arg_cong [OF eq, of currentNumber] by simp
  show "gameState game' = gameState game" using arg_cong [OF eq, of gameState] by simp
  show "winner game' = winner game" using arg_cong [OF eq, of winner] by simp
  show "callInterval game' = callInterval game" using arg_cong [OF eq, of callInterval] by simp
qed

lemma room_touched:
  assumes "games s rid = Some game"
    and "games s' = (games s)(rid' \<mapsto> game')"
    and "rid' = rid \<Longrightarrow> onlyPlayersDiffer game game'"
  shows "\<exists>g. games s' rid = Some g \<and> onlyPlayersDiffer game g"
proof (cases "rid' = rid")
  case True
  then have "games s' rid = Some game'" using assms(2) by simp
  then show ?thesis using assms(3) [OF True] by blast
next
  case False
  then have "games s' rid = Some game" using assms(1,2) by simp
  then show ?thesis using onlyPlayersDiffer_refl by blast
qed

lemma room_untouched:
  assumes "games s rid = Some game" and "games s' = games s"
  shows "\<exists>g. games s' rid = Some g \<and> onlyPlayersDiffer game g"
  using assms onlyPlayersDiffer_refl by simp

lemma join_finished_frame:
  assumes g: "games s rid = Some game"
    and run: "onJoinGame s socketId rid' playerName us = Inr (s', out)"
  shows "\<exists>g. games s' rid = Some g \<and> onlyPlayersDiffer game g"
proof -
  let ?game0 = "case games s rid' of None \<Rightarrow> newBingoGame rid' | Some g \<Rightarrow> g"
  let ?shown = "if playerName \<noteq> [] then playerName
                else ''Player '' @ showNat (length (players ?game0) + 1)"
  let ?game' = "fst (addPlayer ?game0 socketId ?shown us)"
  have "s' = s\<lparr>games := (games s)(rid' \<mapsto> ?game'),
               socketRoomId := (socketRoomId s)(socketId \<mapsto> rid')\<rparr>"
    using run unfolding onJoinGame_result Let_def by simp
  then have upd: "games s' = (games s)(rid' \<mapsto> ?game')"
    by simp
  have "onlyPlayersDiffer game ?game'" if "rid' = rid"
  proof -
    have "?game0 = game" using that g by simp
    then show ?thesis
      unfolding onlyPlayersDiffer_def using addPlayer_frame [of game socketId ?shown us] by simp
  qed
  from room_touched [OF g upd this] show ?thesis .
qed

lemma start_finished_frame:
  assumes g: "games s rid = Some game"
    and fin: "gameState game = Finished"
    and run: "onStartGame s socketId us = Inr (s', out)"
  shows "\<exists>g. games s' rid = Some g \<and> onlyPlayersDiffer game g"
proof (cases "resolveGame s socketId")
  case None
  then have "s' = s" using run by (simp add: onStartGame_def)
  then show ?thesis using room_untouched [OF g, of s'] by simp
next
  case (Some r)
  obtain rid' game' where r: "r = (rid', game')" by (cases r)
  have g': "games s rid' = Some game'" using Some r by (simp add: resolveGame_Some)
  have "s' = s\<lparr>games := (games s)(rid' \<mapsto> startGame game' (shd us))\<rparr>"
    using run Some r by (simp add: onStartGame_def Let_def)
  then have upd: "games s' = (games s)(rid' \<mapsto> startGame game' (shd us))" by simp
  have "onlyPlayersDiffer game (startGame game' (shd us))" if "rid' = rid"
  proof -
    have "game' = game" using that g g' by simp
    then show ?thesis using fin by (simp add: startGame_not_waiting onlyPlayersDiffer_refl)
  qed
  from room_touched [OF g upd this] show ?thesis .
qed

lemma mark_finished_frame:
  assumes g: "games s rid = Some game"
    and run: "onMarkCell s socketId row col = Inr (s', out)"
  shows "\<exists>g. games s' rid = Some g \<and> onlyPlayersDiffer game g"
proof (cases "resolveGame s socketId")
  case None
  then have "s' = s" using run by (simp add: onMarkCell_def)
  then show ?thesis using room_untouched [OF g, of s'] by simp
next
  case (Some r)
  obtain rid' game' where r: "r = (rid', game')" by (cases r)
  have g': "games s rid' = Some game'" using Some r by (simp add: resolveGame_Some)
  have "s' = s \<or> (\<exists>ps. s' = s\<lparr>games := (games s)(rid' \<mapsto> game'\<lparr>players := ps\<rparr>)\<rparr>)"
    using run Some r
    by (auto simp: onMarkCell_def Let_def split: option.splits if_splits)
  then show ?thesis
  proof
    assume "s' = s"
    then show ?thesis using room_untouched [OF g, of s'] by simp
  next
    assume "\<exists>ps. s' = s\<lparr>games := (games s)(rid' \<mapsto> game'\<lparr>players := ps\<rparr>)\<rparr>"
    then obtain ps where "s' = s\<lparr>games := (games s)(rid' \<mapsto> game'\<lparr>players := ps\<rparr>)\<rparr>"
      by blast
    then have upd: "games s' = (games s)(rid' \<mapsto> game'\<lparr>players := ps\<rparr>)" by simp
    have "onlyPlayersDiffer game (game'\<lparr>players := ps\<rparr>)" if "rid' = rid"
      using that g g' by (simp add: onlyPlayersDiffer_players)
    from room_touched [OF g upd this] show ?thesis .
  qed
qed

lemma claim_finished_frame:
  assumes g: "games s rid = Some game"
    and fin: "gameState game = Finished"
    and run: "onClaimBingo s socketId = Inr (s', out)"
  shows "\<exists>g. games s' rid = Some g \<and> onlyPlayersDiffer game g"
proof (cases "resolveGame s socketId")
  case None
  then have "s' = s" using run by (simp add: onClaimBingo_noop)
  then show ?thesis using room_untouched [OF g, of s'] by simp
next
  case (Some r)
  obtain rid' game' where r: "r = (rid', game')" by (cases r)
  have res: "resolveGame s socketId = Some (rid', game')" using Some r by simp
  have g': "games s rid' = Some game'" using res by (simp add: resolveGame_Some)
  show ?thesis
  proof (cases "gameState game' = Playing \<and> map_of (players game') socketId \<noteq> None")
    case False
    have "onClaimBingo s socketId = Inr (s, [])"
      using res False by (intro onClaimBingo_noop) auto
    then have "s' = s" using run by simp
    then show ?thesis using room_untouched [OF g, of s'] by simp
  next
    case True
    then obtain p where p: "map_of (players game') socketId = Some p" by blast
    have other: "rid' \<noteq> rid" using True g g' fin by auto
    have "\<exists>g''. s' = s\<lparr>games := (games s)(rid' \<mapsto> g'')\<rparr>"
      using run onClaimBingo_playing [OF res conjunct1 [OF True] p]
      by (auto simp: Let_def split: if_splits)
    then obtain g'' where "s' = s\<lparr>games := (games s)(rid' \<mapsto> g'')\<rparr>" by blast
    then have upd: "games s' = (games s)(rid' \<mapsto> g'')" by simp
    have "onlyPlayersDiffer game g''" if "rid' = rid"
      using that other by simp
    from room_touched [OF g upd this] show ?thesis .
  qed
qed

lemma newGame_finished_frame:
  assumes g: "games s rid = Some game"
    and run: "onNewGame s socketId us = Inr (s', out)"
    and nr: "socketRoomId s socketId \<noteq> Some rid"
  shows "\<exists>g. games s' rid = Some g \<and> onlyPlayersDiffer game g"
proof (cases "resolveGame s socketId")
  case None
  then have "s' = s" using run by (simp add: onNewGame_def)
  then show ?thesis using room_untouched [OF g, of s'] by simp
next
  case (Some r)
  obtain rid' game' where r: "r = (rid', game')" by (cases r)
  have res: "resolveGame s socketId = Some (rid', game')" using Some r by simp
  then have other: "rid' \<noteq> rid" using nr by (auto simp: resolveGame_Some)
  have "\<exists>g''. s' = s\<lparr>games := (games s)(rid' \<mapsto> g'')\<rparr>"
    using run res by (auto simp: onNewGame_def Let_def)
  then obtain g'' where "s' = s\<lparr>games := (games s)(rid' \<mapsto> g'')\<rparr>" by blast
  then have upd: "games s' = (games s)(rid' \<mapsto> g'')" by simp
  have "onlyPlayersDiffer game g''" if "rid' = rid"
    using that other by simp
  from room_touched [OF g upd this] show ?thesis .
qed

lemma disconnect_finished_frame:
  assumes g: "games s rid = Some game"
    and run: "onDisconnect s socketId = Inr (s', out)"
  shows "games s' rid = None \<or> (\<exists>g. games s' rid = Some g \<and> onlyPlayersDiffer game g)"
proof (cases "resolveGame s socketId")
  case None
  then have "games s' = games s" using run by (auto simp: onDisconnect_def)
  then show ?thesis using g onlyPlayersDiffer_refl by simp
next
  case (Some r)
  obtain rid' game' where r: "r = (rid', game')" by (cases r)
  have res: "resolveGame s socketId = Some (rid', game')" using Some r by simp
  have g': "games s rid' = Some game'" using res by (simp add: resolveGame_Some)
  show ?thesis
  proof (cases "length (players (removePlayer game' socketId)) = 0")
    case True
    then have "games s' = (games s)(rid' := None)"
      using run res by (auto simp: onDisconnect_def Let_def)
    then show ?thesis using g onlyPlayersDiffer_refl by (cases "rid' = rid") simp_all
  next
    case False
    have upd: "games s' = (games s)(rid' \<mapsto> removePlayer game' socketId)"
      using False run res by (auto simp: onDisconnect_def Let_def)
    have "onlyPlayersDiffer game (removePlayer game' socketId)" if "rid' = rid"
    proof -
      have "game' = game" using that g g' by simp
      then show ?thesis
        using removePlayer_nonempty [OF False] by (simp add: onlyPlayersDiffer_players)
    qed
    from room_touched [OF g upd this] show ?thesis by blast
  qed
qed

lemma tick_finished_frame:
  assumes g: "games s rid = Some game"
    and tm: "callInterval game = None"
    and run: "onTick s rid' u = Inr (s', out)"
  shows "\<exists>g. games s' rid = Some g \<and> onlyPlayersDiffer game g"
proof (cases "games s rid'")
  case None
  then have "s' = s" using run by (simp add: onTick_def)
  then show ?thesis using room_untouched [OF g, of s'] by simp
next
  case (Some game')
  show ?thesis
  proof (cases "callInterval game' = None")
    case True
    then have "s' = s" using run Some by (simp add: onTick_def)
    then show ?thesis using room_untouched [OF g, of s'] by simp
  next
    case False
    then have other: "rid' \<noteq> rid" using g Some tm by auto
    have "s' = s\<lparr>games := (games s)(rid' \<mapsto> snd (callNumber game' u))\<rparr>"
      using False run Some by (auto simp: onTick_def)
    then have upd: "games s' = (games s)(rid' \<mapsto> snd (callNumber game' u))" by simp
    have "onlyPlayersDiffer game (snd (callNumber game' u))" if "rid' = rid"
      using that other by simp
    from room_touched [OF g upd this] show ?thesis .
  qed
qed

lemma step_finished_frame:
  assumes g: "games s rid = Some game"
    and fin: "gameState game = Finished"
    and tm: "callInterval game = None"
    and run: "step s us ev = Inr (s', out)"
    and nr: "\<not> resets rid s ev"
  shows "games s' rid = None \<or> (\<exists>g. games s' rid = Some g \<and> onlyPlayersDiffer game g)"
proof (cases ev)
  case (JoinGame socketId rid' playerName)
  then show ?thesis using join_finished_frame [OF g] run by simp
next
  case (StartGame socketId)
  then show ?thesis using start_finished_frame [OF g fin] run by simp
next
  case (MarkCell socketId row col)
  then show ?thesis using mark_finished_frame [OF g] run by simp
next
  case (ClaimBingo socketId)
  then show ?thesis using claim_finished_frame [OF g fin] run by simp
next
  case (NewGame socketId)
  then show ?thesis using newGame_finished_frame [OF g] run nr by simp
next
  case (Disconnect socketId)
  then show ?thesis using disconnect_finished_frame [OF g] run by simp
next
  case (Tick rid')
  then show ?thesis using tick_finished_frame [OF g tm] run by simp
qed

lemma untilReset_finished:
  assumes "untilReset rid s s'"
    and "games s rid = Some game" and "gameState game = Finished"
    and "callInterval game = None"
  shows "\<exists>g. games s' rid = Some g \<and> onlyPlayersDiffer game g"
  using assms
proof (induction rule: untilReset.induct)
  case untilReset_refl
  then show ?case using onlyPlayersDiffer_refl by simp
next
  case (untilReset_step s1 us ev s2 out)
  from untilReset_step.IH [OF untilReset_step.prems]
  obtain g1 where g1: "games s1 rid = Some g1" "onlyPlayersDiffer game g1" by blast
  note f = onlyPlayersDiffer_fields [OF g1(2)]
  have "gameState g1 = Finished" "callInterval g1 = None"
    using f untilReset_step.prems by simp_all
  from step_finished_frame [OF g1(1) this untilReset_step.hyps(2,3)] untilReset_step.hyps(4)
  obtain g2 where g2: "games s2 rid = Some g2" "onlyPlayersDiffer g1 g2" by blast
  from onlyPlayersDiffer_trans [OF g1(2) g2(2)] g2(1) show ?case by blast
qed

lemma onStartGame_finished:
  assumes "games s rid = Some game" and "gameState game = Finished"
    and "socketRoomId s socketId = Some rid" and "rid \<noteq> []"
  shows "onStartGame s socketId us = Inr (s, [IoTo rid (GameStarted (getState game))])"
proof -
  have "resolveGame s socketId = Some (rid, game)"
    using assms by (simp add: resolveGame_Some)
  moreover have "startGame game (shd us) = game"
    using assms(2) by (simp add: startGame_not_waiting)
  ultimately show ?thesis
    using assms(1) by (simp add: onStartGame_def Let_def map_upd_triv)
qed

text \<open>
  Claim C2. A player of a playing game whose marked set has a complete line (the FREE
  cell counting as marked) claims bingo. The handler sends one event, the win with the
  player's name, card and marked indices, to the whole room; the game of the room is then
  finished, its winner is the player's name, its interval handle is cleared, and its
  called numbers are as before. From then on, through any events that do not reset the
  room and while the room stays in the map, the game stays finished with that winner and
  no handle, \<open>startGame\<close> returns it unchanged, and a startGame event from a socket of
  the room leaves the whole process state as it is.
\<close>

theorem winning_claim_finishes_room:
  assumes "resolveGame s socketId = Some (rid, game)"
    and "gameState game = Playing"
    and "map_of (players game) socketId = Some p"
    and "completeLine (markedCells p)"
  shows "\<exists>s' game'.
       onClaimBingo s socketId =
         Inr (s', [IoTo rid (GameWon (name_p p) (card_p p)
                                (setAdd freeIndex (markedCells p)))])
     \<and> games s' rid = Some game'
     \<and> gameState game' = Finished
     \<and> winner game' = Some (name_p p)
     \<and> callInterval game' = None
     \<and> calledNumbers game' = calledNumbers game
     \<and> currentNumber game' = currentNumber game
     \<and> (\<forall>s''. untilReset rid s' s'' \<longrightarrow>
           (\<exists>game''. games s'' rid = Some game''
              \<and> gameState game'' = Finished
              \<and> winner game'' = Some (name_p p)
              \<and> callInterval game'' = None
              \<and> (\<forall>u. startGame game'' u = game'')
              \<and> (\<forall>other us. socketRoomId s'' other = Some rid \<longrightarrow>
                    onStartGame s'' other us =
                      Inr (s'', [IoTo rid (GameStarted (getState game''))]))))"
proof -
  let ?p1 = "p\<lparr>markedCells := setAdd freeIndex (markedCells p)\<rparr>"
  let ?game' = "game\<lparr>players := AList.update socketId ?p1 (players game),
                      gameState := Finished, winner := Some (name_p p),
                      callInterval := None\<rparr>"
  let ?s' = "s\<lparr>games := (games s)(rid \<mapsto> ?game')\<rparr>"
  have rid: "rid \<noteq> []" using assms(1) by (simp add: resolveGame_Some)
  have run: "onClaimBingo s socketId =
      Inr (?s', [IoTo rid (GameWon (name_p p) (card_p p) (setAdd freeIndex (markedCells p)))])"
    using onClaimBingo_playing [OF assms(1,2,3)] assms(4)
    by (simp add: Let_def checkLines_completeLine)
  have room: "games ?s' rid = Some ?game'" by simp
  have later: "\<exists>game''. games s'' rid = Some game''
              \<and> gameState game'' = Finished
              \<and> winner game'' = Some (name_p p)
              \<and> callInterval game'' = None
              \<and> (\<forall>u. startGame game'' u = game'')
              \<and> (\<forall>other us. socketRoomId s'' other = Some rid \<longrightarrow>
                    onStartGame s'' other us =
                      Inr (s'', [IoTo rid (GameStarted (getState game''))]))"
    if "untilReset rid ?s' s''" for s''
  proof -
    have "gameState ?game' = Finished" "callInterval ?game' = None" by simp_all
    from untilReset_finished [OF that room this]
    obtain g where g: "games s'' rid = Some g" "onlyPlayersDiffer ?game' g" by blast
    note f = onlyPlayersDiffer_fields [OF g(2)]
    have fin: "gameState g = Finished" using f(4) by simp
    have "winner g = Some (name_p p)" using f(5) by simp
    moreover have "callInterval g = None" using f(6) by simp
    moreover have "\<forall>u. startGame g u = g"
      using fin by (simp add: startGame_not_waiting)
    moreover have "\<forall>other us. socketRoomId s'' other = Some rid \<longrightarrow>
        onStartGame s'' other us = Inr (s'', [IoTo rid (GameStarted (getState g))])"
      using onStartGame_finished [OF g(1) fin _ rid] by blast
    ultimately show ?thesis using g(1) fin by blast
  qed
  have "gameState ?game' = Finished" "winner ?game' = Some (name_p p)"
    "callInterval ?game' = None" "calledNumbers ?game' = calledNumbers game"
    "currentNumber ?game' = currentNumber game"
    by simp_all
  then show ?thesis using run room later by blast
qed

lemma onClaimBingo_sockets:
  "onClaimBingo s socketId = Inr (s', out) \<Longrightarrow> socketRoomId s' = socketRoomId s"
  by (auto simp: onClaimBingo_def Let_def split_beta split: option.splits if_splits)

lemma wonServer_run:
  "onClaimBingo (demoServer [1, 16, 31, 46, 61] [0, 1, 2, 3, 4]) ''s1'' =
     Inr (wonServer, [IoTo ''r1'' (GameWon ''Ann'' demoCard [0, 1, 2, 3, 4, 12])])"
proof -
  have c: "checkLines [0, 1, 2, 3, 4, 12]"
    by (simp add: checkLines_def countMarked_def setHas_def rowCells_def)
  have r: "onClaimBingo (demoServer [1, 16, 31, 46, 61] [0, 1, 2, 3, 4]) ''s1'' =
     Inr (case onClaimBingo (demoServer [1, 16, 31, 46, 61] [0, 1, 2, 3, 4]) ''s1'' of
            Inl e \<Rightarrow> initialServer | Inr (s, out) \<Rightarrow> s,
          [IoTo ''r1'' (GameWon ''Ann'' demoCard [0, 1, 2, 3, 4, 12])])"
    using c
    by (simp add: onClaimBingo_playing [OF demoServer_resolves _ demoGame_player]
        demoGame_def demoPlayer_def Let_def setAdd_def freeIndex_def)
  then show ?thesis by (simp only: wonServer_def)
qed

text \<open>
  On the example game with row 0 called and marked: the claim of \<open>s1\<close> is answered by the
  win event to room \<open>r1\<close>, the game is finished with winner Ann and no handle, and a
  startGame event then changes nothing.
\<close>

theorem winning_claim_finishes_room_witness:
  "resolveGame (demoServer [1, 16, 31, 46, 61] [0, 1, 2, 3, 4]) ''s1''
     = Some (''r1'', demoGame [1, 16, 31, 46, 61] [0, 1, 2, 3, 4])
   \<and> gameState (demoGame [1, 16, 31, 46, 61] [0, 1, 2, 3, 4]) = Playing
   \<and> map_of (players (demoGame [1, 16, 31, 46, 61] [0, 1, 2, 3, 4])) ''s1''
       = Some (demoPlayer [0, 1, 2, 3, 4])
   \<and> completeLine (markedCells (demoPlayer [0, 1, 2, 3, 4]))
   \<and> onClaimBingo (demoServer [1, 16, 31, 46, 61] [0, 1, 2, 3, 4]) ''s1'' =
       Inr (wonServer, [IoTo ''r1'' (GameWon ''Ann'' demoCard [0, 1, 2, 3, 4, 12])])
   \<and> roomState wonServer ''r1'' = Some Finished
   \<and> map_option winner (games wonServer ''r1'') = Some (Some ''Ann'')
   \<and> roomTimer wonServer ''r1'' = Some None
   \<and> untilReset ''r1'' wonServer wonServer
   \<and> socketRoomId wonServer ''s1'' = Some ''r1''
   \<and> map_option fst (case onStartGame wonServer ''s1'' (sconst sampleZero) of
                        Inl e \<Rightarrow> None | Inr r \<Rightarrow> Some r) = Some wonServer"
proof -
  let ?D = "demoServer [1, 16, 31, 46, 61] [0, 1, 2, 3, 4]"
  let ?G = "demoGame [1, 16, 31, 46, 61] [0, 1, 2, 3, 4]"
  let ?P = "demoPlayer [0, 1, 2, 3, 4]"
  have a: "resolveGame ?D ''s1'' = Some (''r1'', ?G)" by (rule demoServer_resolves)
  have b: "gameState ?G = Playing" by (simp add: demoGame_def)
  have c: "map_of (players ?G) ''s1'' = Some ?P" by (rule demoGame_player)
  have d: "completeLine (markedCells ?P)"
    by (simp add: completeLine_def demoPlayer_def bingoLines_def)
  from winning_claim_finishes_room [OF a b c d] obtain s' game' where
    run: "onClaimBingo ?D ''s1'' =
         Inr (s', [IoTo ''r1'' (GameWon (name_p ?P) (card_p ?P)
                                (setAdd freeIndex (markedCells ?P)))])"
    and room: "games s' ''r1'' = Some game'" "gameState game' = Finished"
      "winner game' = Some (name_p ?P)" "callInterval game' = None"
    and later: "\<forall>s''. untilReset ''r1'' s' s'' \<longrightarrow>
           (\<exists>game''. games s'' ''r1'' = Some game''
              \<and> gameState game'' = Finished
              \<and> winner game'' = Some (name_p ?P)
              \<and> callInterval game'' = None
              \<and> (\<forall>u. startGame game'' u = game'')
              \<and> (\<forall>other us. socketRoomId s'' other = Some ''r1'' \<longrightarrow>
                    onStartGame s'' other us =
                      Inr (s'', [IoTo ''r1'' (GameStarted (getState game''))])))"
    by blast
  have s': "s' = wonServer"
    using run wonServer_run by simp
  have sock: "socketRoomId wonServer ''s1'' = Some ''r1''"
    using onClaimBingo_sockets [OF wonServer_run] by (simp add: demoServer_def)
  have refl: "untilReset ''r1'' wonServer wonServer" by (rule untilReset_refl)
  from later [unfolded s', rule_format, OF refl] sock
  have start: "\<exists>out. onStartGame wonServer ''s1'' (sconst sampleZero) = Inr (wonServer, out)"
    by blast
  have nm: "name_p ?P = ''Ann''" by (simp add: demoPlayer_def)
  show ?thesis
    using a b c d wonServer_run room [unfolded s' nm] refl sock start
    by (auto simp: roomState_def roomTimer_def)
qed

end
